theory Spec2Isabelle
  imports
    Complex_Main
    "HOL-Library.Word"
    "HOL-Library.Multiset"
    "HOL-Library.Sublist"
    "HOL-Library.Log_Nat"
begin

section \<open>JavaScript strings\<close>

text \<open>
  A JavaScript string is a finite sequence of 16-bit code units. String literals of the
  source are written \<open>js ''...''\<close>.
\<close>

type_synonym jsstring = "16 word list"

definition js :: "string \<Rightarrow> jsstring" where
  "js s = map of_char s"








text \<open>
  \<open>t.includes(q)\<close>: \<open>q\<close> occurs in \<open>t\<close> as a contiguous run of units, starting at some
  position; the empty string occurs in every string.
\<close>

fun "includes" :: "jsstring \<Rightarrow> jsstring \<Rightarrow> bool" where
  "includes [] q = (q = [])"
| "includes (c # cs) q = (prefix q (c # cs) \<or> includes cs q)"


section \<open>The Note entity\<close>

record Note =
  id :: jsstring
  "text" :: jsstring
  "done" :: bool
  createdAt :: jsstring


section \<open>Query engine\<close>


definition toggleNote :: "Note \<Rightarrow> Note" where
  "toggleNote note = note \<lparr> done := \<not> done note \<rparr>"


text \<open>
  \<open>Array.prototype.sort\<close> with a comparator. The comparator returns a Number; \<open>None\<close>
  stands for NaN, which the sort reads as \<open>+0\<close>. The sort is stable, so for a consistent
  comparator its result is determined: it is computed here by inserting each element,
  from the last to the first, in front of the first element it does not exceed.
\<close>

definition sortCompare :: "('a \<Rightarrow> 'a \<Rightarrow> int option) \<Rightarrow> 'a \<Rightarrow> 'a \<Rightarrow> int" where
  "sortCompare comparefn x y = (case comparefn x y of None \<Rightarrow> 0 | Some v \<Rightarrow> v)"

primrec place :: "('a \<Rightarrow> 'a \<Rightarrow> int option) \<Rightarrow> 'a \<Rightarrow> 'a list \<Rightarrow> 'a list" where
  "place comparefn x [] = [x]"
| "place comparefn x (y # ys) =
     (if sortCompare comparefn x y \<le> 0 then x # y # ys else y # place comparefn x ys)"

definition js_sort :: "('a \<Rightarrow> 'a \<Rightarrow> int option) \<Rightarrow> 'a list \<Rightarrow> 'a list" where
  "js_sort comparefn xs = foldr (place comparefn) xs []"

text \<open>
  Two functions of the platform are parameters of \<open>sortNotes\<close>: \<open>getTime s\<close> is
  \<open>new Date(s).getTime()\<close>, the time value in milliseconds or NaN (\<open>None\<close>) for a string
  that is not a date; \<open>localeCompare a b\<close> is \<open>a.localeCompare(b)\<close> in the host's locale.
  Time values are integers of magnitude at most 8.64e15, so the sign of the difference
  of two of them is the sign of the exact difference.
\<close>

record Host =
  getTime :: "jsstring \<Rightarrow> int option"
  localeCompare :: "jsstring \<Rightarrow> jsstring \<Rightarrow> int"

definition byDate :: "Host \<Rightarrow> Note \<Rightarrow> Note \<Rightarrow> int option" where
  "byDate h a b =
     (case (getTime h (createdAt b), getTime h (createdAt a)) of
        (Some tb, Some ta) \<Rightarrow> Some (tb - ta)
      | _ \<Rightarrow> None)"

definition byText :: "Host \<Rightarrow> Note \<Rightarrow> Note \<Rightarrow> int option" where
  "byText h a b = Some (localeCompare h (text a) (text b))"

definition byStatus :: "Host \<Rightarrow> Note \<Rightarrow> Note \<Rightarrow> int option" where
  "byStatus h a b =
     (if done a = done b then byDate h a b
      else Some (if done a then 1 else - 1))"

definition sortNotes :: "Host \<Rightarrow> Note list \<Rightarrow> jsstring \<Rightarrow> Note list" where
  "sortNotes h notes sortBy =
     (let sorted = notes in
      if sortBy = js ''alphabetical'' then js_sort (byText h) sorted
      else if sortBy = js ''status'' then js_sort (byStatus h) sorted
      else js_sort (byDate h) sorted)"

definition filterNotesByStatus :: "Note list \<Rightarrow> jsstring \<Rightarrow> Note list" where
  "filterNotesByStatus notes flt =
     (if flt = js ''open'' then filter (\<lambda>note. \<not> done note) notes
      else if flt = js ''done'' then filter (\<lambda>note. done note) notes
      else notes)"


section \<open>Statistics\<close>

text \<open>
  JavaScript Numbers are IEEE 754 binary64 values. A finite one is modelled by the
  rational number it denotes. \<open>double x\<close> is the binary64 value nearest to \<open>x\<close>, ties to
  the even significand, for \<open>x\<close> in the range of normal numbers (no overflow and no
  subnormals, which the quotients and percentages below never reach): with
  \<open>2^e \<le> |x| < 2^(e+1)\<close> the significand is \<open>x / 2^(e-52)\<close> rounded to an integer.
  Division and multiplication are the exact operation followed by this rounding.
\<close>

definition pow2 :: "int \<Rightarrow> rat" where
  "pow2 e = (if 0 \<le> e then 2 ^ nat e else 1 / 2 ^ nat (- e))"

definition binade :: "rat \<Rightarrow> int" where
  "binade x =
     (let (a, b) = quotient_of \<bar>x\<bar>;
          k = bitlen a - bitlen b
      in if pow2 k \<le> \<bar>x\<bar> then k else k - 1)"

definition roundTiesToEven :: "rat \<Rightarrow> int" where
  "roundTiesToEven y =
     (let f = \<lfloor>y\<rfloor>; r = y - of_int f
      in if r < 1 / 2 then f
         else if 1 / 2 < r then f + 1
         else if even f then f else f + 1)"

definition double :: "rat \<Rightarrow> rat" where
  "double x =
     (if x = 0 then 0
      else let ulp = pow2 (binade x - 52)
           in of_int (roundTiesToEven (x / ulp)) * ulp)"

definition js_div :: "rat \<Rightarrow> rat \<Rightarrow> rat" where
  "js_div x y = double (x / y)"

definition js_mul :: "rat \<Rightarrow> rat \<Rightarrow> rat" where
  "js_mul x y = double (x * y)"

text \<open>
  \<open>Math.round\<close>: the integer nearest to its argument, the larger one at a tie.
\<close>

definition Math_round :: "rat \<Rightarrow> int" where
  "Math_round x = \<lfloor>x + 1 / 2\<rfloor>"

record Stats =
  total :: int
  completed :: int
  pending :: int
  completionRate :: int

definition calculateStats :: "Note list \<Rightarrow> Stats" where
  "calculateStats notes =
     (let total = int (length notes);
          completed = int (length (filter (\<lambda>note. done note) notes));
          pending = total - completed
      in \<lparr> total = total, completed = completed, pending = pending,
           completionRate =
             (if 0 < total
              then Math_round (js_mul (js_div (of_int completed) (of_int total)) 100)
              else 0) \<rparr>)"


section \<open>JSON text\<close>

text \<open>
  The values \<open>JSON.parse\<close> can return. A number is kept as the literal that denotes it
  (the platform converts it to the nearest binary64 value); an object is kept as its
  members in the order of the text.
\<close>

datatype json =
    JNull
  | JBool bool
  | JNumber jsstring
  | JString jsstring
  | JArray "json list"
  | JObject "(jsstring \<times> json) list"

datatype exn = SyntaxError | SecurityError | QuotaExceededError

subsection \<open>Serialising notes\<close>

text \<open>
  \<open>JSON.stringify\<close> on an array of notes, without indentation. A string is written
  between quotes; the quote, the backslash and the control characters below U+0020 are
  escaped, and so is a surrogate that is not part of a pair. The members of a note are
  written in the order in which \<open>createNote\<close> builds them.
\<close>

definition hexDigit :: "nat \<Rightarrow> 16 word" where
  "hexDigit d = (if d < 10 then 0x30 + of_nat d else 0x61 + of_nat (d - 10))"

definition unicodeEscape :: "16 word \<Rightarrow> jsstring" where
  "unicodeEscape c =
     [0x5C, 0x75,
      hexDigit (unat c div 4096), hexDigit (unat c div 256 mod 16),
      hexDigit (unat c div 16 mod 16), hexDigit (unat c mod 16)]"

definition isHighSurrogate :: "16 word \<Rightarrow> bool" where
  "isHighSurrogate c \<longleftrightarrow> 0xD800 \<le> c \<and> c \<le> 0xDBFF"

definition isLowSurrogate :: "16 word \<Rightarrow> bool" where
  "isLowSurrogate c \<longleftrightarrow> 0xDC00 \<le> c \<and> c \<le> 0xDFFF"

definition escapeUnit :: "16 word \<Rightarrow> jsstring" where
  "escapeUnit c =
     (if c = 0x08 then [0x5C, 0x62]
      else if c = 0x09 then [0x5C, 0x74]
      else if c = 0x0A then [0x5C, 0x6E]
      else if c = 0x0C then [0x5C, 0x66]
      else if c = 0x0D then [0x5C, 0x72]
      else if c = 0x22 then [0x5C, 0x22]
      else if c = 0x5C then [0x5C, 0x5C]
      else if c < 0x20 \<or> isHighSurrogate c \<or> isLowSurrogate c then unicodeEscape c
      else [c])"

fun quoteUnits :: "jsstring \<Rightarrow> jsstring" where
  "quoteUnits [] = []"
| "quoteUnits [c] = escapeUnit c"
| "quoteUnits (c # d # cs) =
     (if isHighSurrogate c \<and> isLowSurrogate d then c # d # quoteUnits cs
      else escapeUnit c @ quoteUnits (d # cs))"

definition QuoteJSONString :: "jsstring \<Rightarrow> jsstring" where
  "QuoteJSONString s = 0x22 # quoteUnits s @ [0x22]"

definition keyValue :: "string \<Rightarrow> jsstring \<Rightarrow> jsstring" where
  "keyValue key v = QuoteJSONString (js key) @ 0x3A # v"

definition stringifyNote :: "Note \<Rightarrow> jsstring" where
  "stringifyNote note =
     0x7B # keyValue ''id'' (QuoteJSONString (id note))
     @ 0x2C # keyValue ''text'' (QuoteJSONString (text note))
     @ 0x2C # keyValue ''done'' (if done note then js ''true'' else js ''false'')
     @ 0x2C # keyValue ''createdAt'' (QuoteJSONString (createdAt note))
     @ [0x7D]"

fun joinComma :: "jsstring list \<Rightarrow> jsstring" where
  "joinComma [] = []"
| "joinComma [x] = x"
| "joinComma (x # y # ys) = x @ 0x2C # joinComma (y # ys)"

definition JSON_stringify :: "Note list \<Rightarrow> jsstring" where
  "JSON_stringify notes = 0x5B # joinComma (map stringifyNote notes) @ [0x5D]"

text \<open>The value that a note, and an array of notes, is in the terms of \<open>json\<close>.\<close>

definition noteValue :: "Note \<Rightarrow> json" where
  "noteValue note =
     JObject [(js ''id'', JString (id note)), (js ''text'', JString (text note)),
              (js ''done'', JBool (done note)), (js ''createdAt'', JString (createdAt note))]"

definition notesValue :: "Note list \<Rightarrow> json" where
  "notesValue notes = JArray (map noteValue notes)"


subsection \<open>Parsing\<close>

text \<open>
  \<open>JSON.parse\<close> accepts exactly the JSON grammar: a value between optional white space
  (space, TAB, LF, CR) and nothing after it. Every parser below returns what it has read
  and the rest of the text, or \<open>None\<close> where the text is not of the grammar.
\<close>

definition isJsonWs :: "16 word \<Rightarrow> bool" where
  "isJsonWs c \<longleftrightarrow> c = 0x20 \<or> c = 0x09 \<or> c = 0x0A \<or> c = 0x0D"

definition skipWs :: "jsstring \<Rightarrow> jsstring" where
  "skipWs s = dropWhile isJsonWs s"

definition hexValue :: "16 word \<Rightarrow> nat option" where
  "hexValue c =
     (if 0x30 \<le> c \<and> c \<le> 0x39 then Some (unat c - 0x30)
      else if 0x61 \<le> c \<and> c \<le> 0x66 then Some (unat c - 0x61 + 10)
      else if 0x41 \<le> c \<and> c \<le> 0x46 then Some (unat c - 0x41 + 10)
      else None)"

definition hex4 :: "16 word \<Rightarrow> 16 word \<Rightarrow> 16 word \<Rightarrow> 16 word \<Rightarrow> 16 word option" where
  "hex4 a b c d =
     (case (hexValue a, hexValue b, hexValue c, hexValue d) of
        (Some h3, Some h2, Some h1, Some h0) \<Rightarrow>
          Some (of_nat (((h3 * 16 + h2) * 16 + h1) * 16 + h0))
      | _ \<Rightarrow> None)"

definition unescape :: "16 word \<Rightarrow> 16 word option" where
  "unescape e =
     (if e = 0x22 \<or> e = 0x5C \<or> e = 0x2F then Some e
      else if e = 0x62 then Some 0x08
      else if e = 0x66 then Some 0x0C
      else if e = 0x6E then Some 0x0A
      else if e = 0x72 then Some 0x0D
      else if e = 0x74 then Some 0x09
      else None)"

definition withUnit :: "16 word \<Rightarrow> (jsstring \<times> jsstring) option \<Rightarrow> (jsstring \<times> jsstring) option" where
  "withUnit u r = map_option (\<lambda>(str, rest). (u # str, rest)) r"

text \<open>The units of a string literal after its opening quote, up to the closing one.\<close>

fun parseChars :: "jsstring \<Rightarrow> (jsstring \<times> jsstring) option" where
  "parseChars [] = None"
| "parseChars (c # cs) =
     (if c = 0x22 then Some ([], cs)
      else if c = 0x5C then
        (case cs of
           [] \<Rightarrow> None
         | e # es \<Rightarrow>
            if e = 0x75 then
              (case es of
                 h3 # h2 # h1 # h0 # rest \<Rightarrow>
                   (case hex4 h3 h2 h1 h0 of
                      None \<Rightarrow> None
                    | Some u \<Rightarrow> withUnit u (parseChars rest))
               | _ \<Rightarrow> None)
            else
              (case unescape e of
                 None \<Rightarrow> None
               | Some u \<Rightarrow> withUnit u (parseChars es)))
      else if c < 0x20 then None
      else withUnit c (parseChars cs))"

definition isDigit :: "16 word \<Rightarrow> bool" where
  "isDigit c \<longleftrightarrow> 0x30 \<le> c \<and> c \<le> 0x39"

text \<open>
  A number literal: an optional minus sign, an integer part (a single zero, or digits
  that start with a non-zero one), an optional fraction and an optional exponent. Each
  scanner returns the text after the part it has read.
\<close>

definition scanInt :: "jsstring \<Rightarrow> jsstring option" where
  "scanInt s =
     (case s of
        [] \<Rightarrow> None
      | c # cs \<Rightarrow>
         if c = 0x30 then Some cs
         else if isDigit c then Some (dropWhile isDigit cs)
         else None)"

definition scanDigits :: "jsstring \<Rightarrow> jsstring option" where
  "scanDigits s =
     (case s of
        [] \<Rightarrow> None
      | d # ds \<Rightarrow> if isDigit d then Some (dropWhile isDigit ds) else None)"

definition scanFraction :: "jsstring \<Rightarrow> jsstring option" where
  "scanFraction s =
     (case s of
        [] \<Rightarrow> Some s
      | c # cs \<Rightarrow> if c = 0x2E then scanDigits cs else Some s)"

definition scanExponent :: "jsstring \<Rightarrow> jsstring option" where
  "scanExponent s =
     (case s of
        [] \<Rightarrow> Some s
      | c # cs \<Rightarrow>
         if c = 0x65 \<or> c = 0x45 then
           (case cs of
              [] \<Rightarrow> None
            | d # ds \<Rightarrow> if d = 0x2B \<or> d = 0x2D then scanDigits ds else scanDigits cs)
         else Some s)"

definition parseNumber :: "jsstring \<Rightarrow> (jsstring \<times> jsstring) option" where
  "parseNumber s =
     (case scanInt (case s of [] \<Rightarrow> s | c # cs \<Rightarrow> if c = 0x2D then cs else s) of
        None \<Rightarrow> None
      | Some r1 \<Rightarrow>
         (case scanFraction r1 of
            None \<Rightarrow> None
          | Some r2 \<Rightarrow>
             (case scanExponent r2 of
                None \<Rightarrow> None
              | Some r3 \<Rightarrow> Some (take (length s - length r3) s, r3))))"

definition parseLiteral :: "jsstring \<Rightarrow> (json \<times> jsstring) option" where
  "parseLiteral s =
     (if take 4 s = js ''true'' then Some (JBool True, drop 4 s)
      else if take 5 s = js ''false'' then Some (JBool False, drop 5 s)
      else if take 4 s = js ''null'' then Some (JNull, drop 4 s)
      else map_option (\<lambda>(lit, rest). (JNumber lit, rest)) (parseNumber s))"

lemma parseChars_shorter:
  "parseChars s = Some (str, rest) \<Longrightarrow> length rest < length s"
proof (induction s arbitrary: str rest rule: parseChars.induct)
  case 1
  then show ?case by simp
next
  case (2 c cs)
  then show ?case
    by (fastforce simp: withUnit_def split: if_splits list.splits option.splits)
qed

lemma skipWs_Cons_shorter: "skipWs s = c # cs \<Longrightarrow> length cs < length s"
  using length_dropWhile_le [of isJsonWs s] by (simp add: skipWs_def)

text \<open>
  An object takes its members in the order of the text; for a name that is repeated, the
  last value stands, at the place of the first. (An engine enumerates names that are array
  indices before the others; no statement below depends on the order of members other
  than those of a note, whose names are not indices.)
\<close>

definition addMember :: "jsstring \<Rightarrow> json \<Rightarrow> (jsstring \<times> json) list \<Rightarrow> (jsstring \<times> json) list" where
  "addMember key v ms =
     (case map_of ms key of
        None \<Rightarrow> (key, v) # ms
      | Some v' \<Rightarrow> (key, v') # filter (\<lambda>(k, _). k \<noteq> key) ms)"

text \<open>
  \<open>parseValue\<close> reads one value and the white space after it; \<open>parseElements\<close> reads the
  elements of an array up to its closing bracket, \<open>parseMembers\<close> the members of an object
  up to its closing brace. The comparison of lengths after a comma holds whenever it is
  reached (\<open>parseValue_shorter\<close> below); it is there for the termination proof.
\<close>

function parseValue :: "jsstring \<Rightarrow> (json \<times> jsstring) option"
  and parseElements :: "jsstring \<Rightarrow> (json list \<times> jsstring) option"
  and parseMembers :: "jsstring \<Rightarrow> ((jsstring \<times> json) list \<times> jsstring) option"
where
  "parseValue s =
     (case skipWs s of
        [] \<Rightarrow> None
      | c # cs \<Rightarrow>
         if c = 0x5B then
           (case skipWs cs of
              [] \<Rightarrow> None
            | d # ds \<Rightarrow>
               if d = 0x5D then Some (JArray [], skipWs ds)
               else map_option (\<lambda>(vs, rest). (JArray vs, skipWs rest)) (parseElements (d # ds)))
         else if c = 0x7B then
           (case skipWs cs of
              [] \<Rightarrow> None
            | d # ds \<Rightarrow>
               if d = 0x7D then Some (JObject [], skipWs ds)
               else map_option (\<lambda>(ms, rest). (JObject ms, skipWs rest)) (parseMembers (d # ds)))
         else if c = 0x22 then
           map_option (\<lambda>(str, rest). (JString str, skipWs rest)) (parseChars cs)
         else map_option (\<lambda>(v, rest). (v, skipWs rest)) (parseLiteral (c # cs)))"
| "parseElements s =
     (case parseValue s of
        None \<Rightarrow> None
      | Some (v, rest) \<Rightarrow>
         (case rest of
            [] \<Rightarrow> None
          | c # cs \<Rightarrow>
             if c = 0x5D then Some ([v], cs)
             else if c = 0x2C \<and> length cs < length s then
               map_option (\<lambda>(vs, rest'). (v # vs, rest')) (parseElements cs)
             else None))"
| "parseMembers s =
     (case skipWs s of
        [] \<Rightarrow> None
      | q # cs \<Rightarrow>
         if q \<noteq> 0x22 then None
         else
           (case parseChars cs of
              None \<Rightarrow> None
            | Some (key, rest) \<Rightarrow>
               (case skipWs rest of
                  [] \<Rightarrow> None
                | colon # rest1 \<Rightarrow>
                   if colon \<noteq> 0x3A then None
                   else
                     (case parseValue rest1 of
                        None \<Rightarrow> None
                      | Some (v, rest2) \<Rightarrow>
                         (case rest2 of
                            [] \<Rightarrow> None
                          | c # cs' \<Rightarrow>
                             if c = 0x7D then Some ([(key, v)], cs')
                             else if c = 0x2C \<and> length cs' < length s then
                               map_option (\<lambda>(ms, rest'). (addMember key v ms, rest'))
                                 (parseMembers cs')
                             else None)))))"
  by pat_completeness auto
termination
  apply (relation "measure (\<lambda>x. case x of Inl s \<Rightarrow> 2 * length s
                                   | Inr (Inl s) \<Rightarrow> 2 * length s + 1
                                   | Inr (Inr s) \<Rightarrow> 2 * length s + 1)")
       apply simp
      apply (auto dest!: skipWs_Cons_shorter parseChars_shorter)
  done

declare parseValue.simps [simp del] parseElements.simps [simp del] parseMembers.simps [simp del]

definition JSON_parse :: "jsstring \<Rightarrow> exn + json" where
  "JSON_parse s =
     (case parseValue s of
        Some (v, rest) \<Rightarrow> if rest = [] then Inr v else Inl SyntaxError
      | None \<Rightarrow> Inl SyntaxError)"


section \<open>Note repository\<close>

text \<open>
  The environment of the repository: the browser's \<open>localStorage\<close> and the console.
  A store holds its items and, for each of its three operations, whether the operation
  throws and what (access to the storage denied, quota exceeded).
\<close>

record Storage =
  items :: "jsstring \<rightharpoonup> jsstring"
  getFault :: "exn option"
  setFault :: "exn option"
  removeFault :: "exn option"

definition getItem :: "Storage \<Rightarrow> jsstring \<Rightarrow> exn + jsstring option" where
  "getItem st key = (case getFault st of Some e \<Rightarrow> Inl e | None \<Rightarrow> Inr (items st key))"

definition setItem :: "Storage \<Rightarrow> jsstring \<Rightarrow> jsstring \<Rightarrow> exn + Storage" where
  "setItem st key v =
     (case setFault st of
        Some e \<Rightarrow> Inl e
      | None \<Rightarrow> Inr (st \<lparr> items := (items st)(key \<mapsto> v) \<rparr>))"

definition removeItem :: "Storage \<Rightarrow> jsstring \<Rightarrow> exn + Storage" where
  "removeItem st key =
     (case removeFault st of
        Some e \<Rightarrow> Inl e
      | None \<Rightarrow> Inr (st \<lparr> items := (items st)(key := None) \<rparr>))"

datatype severity = Warning | Error

record World =
  localStorage :: Storage
  console :: "(severity \<times> string \<times> exn) list"

definition console_warn :: "World \<Rightarrow> string \<Rightarrow> exn \<Rightarrow> World" where
  "console_warn w msg e = w \<lparr> console := console w @ [(Warning, msg, e)] \<rparr>"

definition console_error :: "World \<Rightarrow> string \<Rightarrow> exn \<Rightarrow> World" where
  "console_error w msg e = w \<lparr> console := console w @ [(Error, msg, e)] \<rparr>"

text \<open>
  \<open>try { body } catch (error) { handler }\<close>: a computation is \<open>Inl\<close> an exception thrown or
  \<open>Inr\<close> its result.
\<close>

definition try_catch :: "exn + 'a \<Rightarrow> (exn \<Rightarrow> exn + 'a) \<Rightarrow> exn + 'a" where
  "try_catch body handler = (case body of Inl e \<Rightarrow> handler e | Inr v \<Rightarrow> Inr v)"

definition STORAGE_KEY :: jsstring where
  "STORAGE_KEY = js ''notes.v1''"

definition loadNotes :: "World \<Rightarrow> exn + (json \<times> World)" where
  "loadNotes w =
     try_catch
       (case getItem (localStorage w) STORAGE_KEY of
          Inl e \<Rightarrow> Inl e
        | Inr stored \<Rightarrow>
           (case stored of
              None \<Rightarrow> Inr (JArray [], w)
            | Some payload \<Rightarrow>
               if payload = [] then Inr (JArray [], w)
               else (case JSON_parse payload of Inl e \<Rightarrow> Inl e | Inr v \<Rightarrow> Inr (v, w))))
       (\<lambda>error.
          Inr (JArray [], console_warn w ''Failed to load notes from localStorage:'' error))"

definition saveNotes :: "Note list \<Rightarrow> World \<Rightarrow> exn + World" where
  "saveNotes notes w =
     try_catch
       (case setItem (localStorage w) STORAGE_KEY (JSON_stringify notes) of
          Inl e \<Rightarrow> Inl e
        | Inr st \<Rightarrow> Inr (w \<lparr> localStorage := st \<rparr>))
       (\<lambda>error. Inr (console_error w ''Failed to save notes to localStorage:'' error))"

definition clearNotes :: "World \<Rightarrow> exn + World" where
  "clearNotes w =
     try_catch
       (case removeItem (localStorage w) STORAGE_KEY of
          Inl e \<Rightarrow> Inl e
        | Inr st \<Rightarrow> Inr (w \<lparr> localStorage := st \<rparr>))
       (\<lambda>error. Inr (console_error w ''Failed to clear notes from localStorage:'' error))"


section \<open>The engine in its environment\<close>








section \<open>Orders, well-formed input and sample data\<close>

text \<open>
  The notions in which the properties of the sort are stated. A list of notes is \<open>dated\<close>
  when every \<open>createdAt\<close> is a date for the host; \<open>newerOrSame h a b\<close> says that \<open>a\<close> was
  created no earlier than \<open>b\<close>; \<open>statusOrder\<close> puts an open note before a done one and,
  within the same status, the newer note first.
\<close>

definition dated :: "Host \<Rightarrow> Note list \<Rightarrow> bool" where
  "dated h notes = list_all (\<lambda>n. getTime h (createdAt n) \<noteq> None) notes"

definition newerOrSame :: "Host \<Rightarrow> Note \<Rightarrow> Note \<Rightarrow> bool" where
  "newerOrSame h a b =
     (case (getTime h (createdAt a), getTime h (createdAt b)) of
        (Some ta, Some tb) \<Rightarrow> tb \<le> ta
      | _ \<Rightarrow> False)"

definition statusOrder :: "Host \<Rightarrow> Note \<Rightarrow> Note \<Rightarrow> bool" where
  "statusOrder h a b = ((\<not> done a \<and> done b) \<or> (done a = done b \<and> newerOrSame h a b))"

text \<open>
  What the language asks of a comparator and promises of the sort. A comparator is
  consistent on a list when on its elements it never returns NaN, its sign is reversed
  when the arguments are exchanged, and \<open>not after\<close> is transitive. A stable sort of \<open>xs\<close>
  is a permutation of \<open>xs\<close> in which no element comes after one that the comparator puts
  before it, and in which elements that compare equal keep the order they have in \<open>xs\<close>.
  \<open>comparator h sortBy\<close> is the comparator that \<open>sortNotes\<close> gives to the sort.
\<close>

definition consistent :: "('a \<Rightarrow> 'a \<Rightarrow> int option) \<Rightarrow> 'a list \<Rightarrow> bool" where
  "consistent comparefn xs \<longleftrightarrow>
     (\<forall>a \<in> set xs. \<forall>b \<in> set xs.
        comparefn a b \<noteq> None
        \<and> sgn (sortCompare comparefn a b) = - sgn (sortCompare comparefn b a))
     \<and> (\<forall>a \<in> set xs. \<forall>b \<in> set xs. \<forall>c \<in> set xs.
          sortCompare comparefn a b \<le> 0 \<and> sortCompare comparefn b c \<le> 0 \<longrightarrow>
          sortCompare comparefn a c \<le> 0)"



text \<open>
  The three notes of the repository's test suite, and a host that knows their instants
  and compares texts unit by unit.
\<close>

definition sampleNotes :: "Note list" where
  "sampleNotes =
     [\<lparr> id = js ''1'', text = js ''Buy groceries'', done = False,
        createdAt = js ''2023-01-01T10:00:00.000Z'' \<rparr>,
      \<lparr> id = js ''2'', text = js ''Walk the dog'', done = True,
        createdAt = js ''2023-01-01T11:00:00.000Z'' \<rparr>,
      \<lparr> id = js ''3'', text = js ''Finish project'', done = False,
        createdAt = js ''2023-01-01T12:00:00.000Z'' \<rparr>]"

definition sampleTimes :: "(jsstring \<times> int) list" where
  "sampleTimes =
     [(js ''2023-01-01T10:00:00.000Z'', 1672567200000),
      (js ''2023-01-01T11:00:00.000Z'', 1672570800000),
      (js ''2023-01-01T12:00:00.000Z'', 1672574400000)]"

fun compareUnits :: "jsstring \<Rightarrow> jsstring \<Rightarrow> int" where
  "compareUnits [] [] = 0"
| "compareUnits [] (y # ys) = - 1"
| "compareUnits (x # xs) [] = 1"
| "compareUnits (x # xs) (y # ys) =
     (if x < y then - 1 else if y < x then 1 else compareUnits xs ys)"

definition sampleHost :: Host where
  "sampleHost = \<lparr> getTime = map_of sampleTimes, localeCompare = compareUnits \<rparr>"







text \<open>
  The notions in which the properties of the statistics are stated: rounding half up of
  an exact rational, the exact percentage of \<open>c\<close> out of \<open>t\<close>, and \<open>tie c t\<close>, which says
  that this percentage lies halfway between two integers. \<open>fortyNotes\<close> are forty notes
  with distinct identifiers of which the first twenty-three are done, \<open>eightNotes\<close> eight
  notes of which the first is done.
\<close>

definition roundHalfUp :: "rat \<Rightarrow> int" where
  "roundHalfUp x = \<lfloor>x + 1 / 2\<rfloor>"

definition exactPercent :: "int \<Rightarrow> int \<Rightarrow> rat" where
  "exactPercent c t = of_int c / of_int t * 100"

definition tie :: "int \<Rightarrow> int \<Rightarrow> bool" where
  "tie c t \<longleftrightarrow> t dvd 200 * c \<and> odd (200 * c div t)"

definition noteNo :: "nat \<Rightarrow> bool \<Rightarrow> Note" where
  "noteNo k d =
     \<lparr> id = replicate (Suc k) 0x78, text = js ''task'', done = d,
       createdAt = js ''2023-01-01T10:00:00.000Z'' \<rparr>"

definition fortyNotes :: "Note list" where
  "fortyNotes = map (\<lambda>k. noteNo k (k < 23)) [0..<40]"

definition eightNotes :: "Note list" where
  "eightNotes = map (\<lambda>k. noteNo k (k < 1)) [0..<8]"


text \<open>
  The notions in which the properties of the repository are stated: a value is a sequence
  when it is an array; a store is healthy when none of its operations throws. The sample
  worlds have an empty console: one with nothing stored, one with a given payload stored
  under the key, and one whose store refuses every operation.
\<close>

definition isSequence :: "json \<Rightarrow> bool" where
  "isSequence v = (case v of JArray _ \<Rightarrow> True | _ \<Rightarrow> False)"

definition healthy :: "Storage \<Rightarrow> bool" where
  "healthy st \<longleftrightarrow> getFault st = None \<and> setFault st = None \<and> removeFault st = None"

definition emptyWorld :: World where
  "emptyWorld =
     \<lparr> localStorage = \<lparr> items = Map.empty, getFault = None, setFault = None, removeFault = None \<rparr>,
       console = [] \<rparr>"

definition storedWorld :: "jsstring \<Rightarrow> World" where
  "storedWorld payload =
     \<lparr> localStorage = \<lparr> items = [STORAGE_KEY \<mapsto> payload], getFault = None, setFault = None,
                        removeFault = None \<rparr>,
       console = [] \<rparr>"

definition deniedWorld :: World where
  "deniedWorld =
     \<lparr> localStorage = \<lparr> items = Map.empty, getFault = Some SecurityError,
                        setFault = Some QuotaExceededError, removeFault = Some SecurityError \<rparr>,
       console = [] \<rparr>"

definition oldSchemaPayload :: jsstring where
  \<open>oldSchemaPayload = js ''{"notes":[]}''\<close>







section \<open>Toggling\<close>

text \<open>
  Claim C4. \<open>toggleNote n\<close> is a note whose \<open>done\<close> is the negation of \<open>done n\<close> and whose
  \<open>id\<close>, \<open>text\<close> and \<open>createdAt\<close> are those of \<open>n\<close>; applying it twice gives \<open>n\<close> back, so
  \<open>done\<close> returns to its value and the other fields never change. The argument is a value
  of the model and is not changed by the call.
\<close>

theorem toggleNote_involution:
  "done (toggleNote n) = (\<not> done n)
   \<and> id (toggleNote n) = id n
   \<and> text (toggleNote n) = text n
   \<and> createdAt (toggleNote n) = createdAt n
   \<and> done (toggleNote (toggleNote n)) = done n
   \<and> id (toggleNote (toggleNote n)) = id n
   \<and> text (toggleNote (toggleNote n)) = text n
   \<and> createdAt (toggleNote (toggleNote n)) = createdAt n
   \<and> toggleNote (toggleNote n) = n"
  by (simp add: toggleNote_def)


section \<open>Sorting\<close>

lemma mset_place: "mset (place f x ys) = add_mset x (mset ys)"
  by (induction ys) simp_all

lemma mset_js_sort: "mset (js_sort f xs) = mset xs"
  by (induction xs) (simp_all add: js_sort_def mset_place)

lemma set_place: "set (place f x ys) = insert x (set ys)"
  using mset_place [of f x ys, THEN arg_cong, of set_mset] by simp

lemma set_js_sort: "set (js_sort f xs) = set xs"
  using mset_js_sort [of f xs, THEN arg_cong, of set_mset] by simp

text \<open>
  Placing an element keeps a list sorted with respect to \<open>R\<close> when, on the elements
  concerned (\<open>P\<close>), \<open>R\<close> is transitive and holds one way or the other, and the comparator
  decides \<open>R\<close>.
\<close>

lemma sorted_place:
  assumes tr: "\<And>a b c. P a \<Longrightarrow> P b \<Longrightarrow> P c \<Longrightarrow> R a b \<Longrightarrow> R b c \<Longrightarrow> R a c"
    and tot: "\<And>a b. P a \<Longrightarrow> P b \<Longrightarrow> \<not> sortCompare f a b \<le> 0 \<Longrightarrow> R b a"
    and le: "\<And>a b. P a \<Longrightarrow> P b \<Longrightarrow> sortCompare f a b \<le> 0 \<Longrightarrow> R a b"
    and "P x" and "\<forall>y \<in> set ys. P y" and "sorted_wrt R ys"
  shows "sorted_wrt R (place f x ys)"
  using assms(4-)
proof (induction ys)
  case Nil
  then show ?case by simp
next
  case (Cons y ys)
  show ?case
  proof (cases "sortCompare f x y \<le> 0")
    case True
    with Cons.prems have xy: "R x y" by (simp add: le)
    have "R x z" if "z \<in> set ys" for z
      using that Cons.prems xy tr [of x y z] by auto
    with xy Cons.prems True show ?thesis by auto
  next
    case False
    with Cons.prems have "R y x" by (simp add: tot)
    moreover have "sorted_wrt R (place f x ys)"
      using Cons by simp
    ultimately show ?thesis
      using False Cons.prems by (auto simp: set_place)
  qed
qed

lemma sorted_js_sort:
  assumes tr: "\<And>a b c. P a \<Longrightarrow> P b \<Longrightarrow> P c \<Longrightarrow> R a b \<Longrightarrow> R b c \<Longrightarrow> R a c"
    and tot: "\<And>a b. P a \<Longrightarrow> P b \<Longrightarrow> \<not> sortCompare f a b \<le> 0 \<Longrightarrow> R b a"
    and le: "\<And>a b. P a \<Longrightarrow> P b \<Longrightarrow> sortCompare f a b \<le> 0 \<Longrightarrow> R a b"
    and "\<forall>y \<in> set xs. P y"
  shows "sorted_wrt R (js_sort f xs)"
  using assms(4)
proof (induction xs)
  case Nil
  then show ?case by (simp add: js_sort_def)
next
  case (Cons x xs)
  have "sorted_wrt R (place f x (js_sort f xs))"
    by (rule sorted_place [where P = P, OF tr tot le])
       (use Cons in \<open>auto simp: set_js_sort\<close>)
  then show ?case by (simp add: js_sort_def)
qed

lemma sorted_byDate:
  assumes "dated h notes"
  shows "sorted_wrt (newerOrSame h) (js_sort (byDate h) notes)"
proof (rule sorted_js_sort [where P = "\<lambda>n. getTime h (createdAt n) \<noteq> None"])
  show "\<forall>y\<in>set notes. getTime h (createdAt y) \<noteq> None"
    using assms by (simp add: dated_def list_all_iff)
qed (auto simp: newerOrSame_def sortCompare_def byDate_def)

lemma sorted_byStatus:
  assumes "dated h notes"
  shows "sorted_wrt (statusOrder h) (js_sort (byStatus h) notes)"
proof (rule sorted_js_sort [where P = "\<lambda>n. getTime h (createdAt n) \<noteq> None"])
  show "\<forall>y\<in>set notes. getTime h (createdAt y) \<noteq> None"
    using assms by (simp add: dated_def list_all_iff)
qed (auto simp: statusOrder_def newerOrSame_def sortCompare_def byStatus_def byDate_def
          split: if_splits)

lemma criteria_distinct:
  "js ''status'' \<noteq> js ''alphabetical''" "js ''date'' \<noteq> js ''alphabetical''"
  "js ''date'' \<noteq> js ''status''" "js ''all'' \<noteq> js ''open''" "js ''all'' \<noteq> js ''done''"
  by (simp_all add: js_def)

lemma dated_sampleNotes: "dated sampleHost sampleNotes"
  by (simp add: dated_def sampleHost_def sampleNotes_def sampleTimes_def js_def)

text \<open>
  For a consistent comparator the sort returns the stable sort, and there is only one.
\<close>

lemma sgn_opposite:
  fixes s t :: int
  assumes "sgn s = - sgn t"
  shows "(s \<le> 0 \<or> t \<le> 0) \<and> (s = 0 \<longleftrightarrow> s \<le> 0 \<and> t \<le> 0)"
proof -
  from assms have
    "(if s = 0 then 0 else if 0 < s then 1 else - 1) = - (if t = 0 then 0 else if 0 < t then 1 else - 1 :: int)"
    by (simp only: sgn_if)
  then show ?thesis
    by (cases "s = 0"; cases "0 < s"; cases "t = 0"; cases "0 < t") simp_all
qed


lemma consistent_trans:
  assumes "consistent f xs" "a \<in> set xs" "b \<in> set xs" "c \<in> set xs"
    "sortCompare f a b \<le> 0" "sortCompare f b c \<le> 0"
  shows "sortCompare f a c \<le> 0"
  using assms unfolding consistent_def by blast

lemma consistent_equal:
  assumes "consistent f xs" "a \<in> set xs" "b \<in> set xs"
  shows "sortCompare f a b = 0 \<longleftrightarrow> sortCompare f a b \<le> 0 \<and> sortCompare f b a \<le> 0"
proof -
  from assms have "sgn (sortCompare f a b) = - sgn (sortCompare f b a)"
    unfolding consistent_def by blast
  from sgn_opposite [OF this] show ?thesis
    by blast
qed

lemma filter_place:
  assumes c: "consistent f zs" and k: "k \<in> set zs" and x: "x \<in> set zs" and ys: "set ys \<subseteq> set zs"
  shows "filter (\<lambda>y. sortCompare f k y = 0) (place f x ys)
     = (if sortCompare f k x = 0 then x # filter (\<lambda>y. sortCompare f k y = 0) ys
        else filter (\<lambda>y. sortCompare f k y = 0) ys)"
  using ys
proof (induction ys)
  case Nil
  then show ?case by simp
next
  case (Cons y ys)
  then have y: "y \<in> set zs" and ys: "set ys \<subseteq> set zs"
    by simp_all
  show ?case
  proof (cases "sortCompare f x y \<le> 0")
    case True
    then show ?thesis by simp
  next
    case False
    have "\<not> (sortCompare f k x = 0 \<and> sortCompare f k y = 0)"
    proof
      assume "sortCompare f k x = 0 \<and> sortCompare f k y = 0"
      then have "sortCompare f x k \<le> 0" "sortCompare f k y \<le> 0"
        using consistent_equal [OF c k x] consistent_equal [OF c k y] by simp_all
      then have "sortCompare f x y \<le> 0"
        using consistent_trans [OF c x k y] by simp
      with False show False ..
    qed
    with False Cons.IH [OF ys] show ?thesis
      by auto
  qed
qed

lemma filter_js_sort:
  assumes c: "consistent f zs" and k: "k \<in> set zs" and xs: "set xs \<subseteq> set zs"
  shows "filter (\<lambda>y. sortCompare f k y = 0) (js_sort f xs) = filter (\<lambda>y. sortCompare f k y = 0) xs"
  using xs
proof (induction xs)
  case Nil
  then show ?case by (simp add: js_sort_def)
next
  case (Cons x xs)
  then have x: "x \<in> set zs" and xs: "set xs \<subseteq> set zs"
    by simp_all
  have "js_sort f (x # xs) = place f x (js_sort f xs)"
    by (simp add: js_sort_def)
  moreover have "set (js_sort f xs) \<subseteq> set zs"
    using xs by (simp add: set_js_sort)
  ultimately show ?case
    using filter_place [OF c k x] Cons.IH [OF xs] by simp
qed





lemma dated_time:
  assumes "dated h ns" "a \<in> set ns"
  obtains t where "getTime h (createdAt a) = Some t"
  using assms by (auto simp: dated_def list_all_iff)

lemma consistent_byDate:
  assumes "dated h ns"
  shows "consistent (byDate h) ns"
  unfolding consistent_def
proof (intro conjI ballI impI)
  fix a b assume "a \<in> set ns" "b \<in> set ns"
  then obtain ta tb where "getTime h (createdAt a) = Some ta" "getTime h (createdAt b) = Some tb"
    using assms dated_time by metis
  then show "byDate h a b \<noteq> None"
    "sgn (sortCompare (byDate h) a b) = - sgn (sortCompare (byDate h) b a)"
    by (simp_all add: byDate_def sortCompare_def sgn_if)
next
  fix a b c assume "a \<in> set ns" "b \<in> set ns" "c \<in> set ns"
  then obtain ta tb tc where "getTime h (createdAt a) = Some ta"
    "getTime h (createdAt b) = Some tb" "getTime h (createdAt c) = Some tc"
    using assms dated_time by metis
  moreover assume "sortCompare (byDate h) a b \<le> 0 \<and> sortCompare (byDate h) b c \<le> 0"
  ultimately show "sortCompare (byDate h) a c \<le> 0"
    by (simp add: byDate_def sortCompare_def)
qed



lemma same_instant:
  assumes "dated h ns" "k \<in> set ns" "x \<in> set ns"
  shows "sortCompare (byDate h) k x = 0 \<longleftrightarrow> getTime h (createdAt x) = getTime h (createdAt k)"
proof -
  from assms obtain tk tx where "getTime h (createdAt k) = Some tk" "getTime h (createdAt x) = Some tx"
    using dated_time by metis
  then show ?thesis
    by (auto simp: byDate_def sortCompare_def)
qed

lemma stable_byDate:
  assumes "dated h ns" "k \<in> set ns"
  shows "filter (\<lambda>n. getTime h (createdAt n) = getTime h (createdAt k)) (js_sort (byDate h) ns)
     = filter (\<lambda>n. getTime h (createdAt n) = getTime h (createdAt k)) ns"
proof -
  have "filter (\<lambda>n. getTime h (createdAt n) = getTime h (createdAt k)) xs
      = filter (\<lambda>x. sortCompare (byDate h) k x = 0) xs" if "set xs \<subseteq> set ns" for xs
    using that same_instant [OF assms] by (intro filter_cong) auto
  from this [of ns] this [of "js_sort (byDate h) ns"]
    filter_js_sort [OF consistent_byDate [OF assms(1)] assms(2), of ns]
  show ?thesis
    by (simp add: set_js_sort)
qed


text \<open>
  Claim C5. For notes whose \<open>createdAt\<close> are dates, \<open>sortNotes\<close> with \<open>status\<close> returns the
  same notes ordered so that every open note comes before every done note and, within
  each status, a note created later comes first. For three notes (open, T1), (done, T2),
  (open, T3) with T3 later than T1 the result is third, first, second.
\<close>

theorem sortNotes_status:
  "(dated h notes \<longrightarrow>
      sorted_wrt (statusOrder h) (sortNotes h notes (js ''status''))
      \<and> mset (sortNotes h notes (js ''status'')) = mset notes)
   \<and> (\<not> done a \<and> done b \<and> \<not> done c
        \<and> getTime h (createdAt a) = Some t1 \<and> getTime h (createdAt c) = Some t3 \<and> t1 < t3 \<longrightarrow>
      sortNotes h [a, b, c] (js ''status'') = [c, a, b])"
proof (intro conjI impI)
  assume "dated h notes"
  then show "sorted_wrt (statusOrder h) (sortNotes h notes (js ''status''))"
    by (simp add: sortNotes_def criteria_distinct sorted_byStatus)
next
  show "mset (sortNotes h notes (js ''status'')) = mset notes"
    by (simp add: sortNotes_def criteria_distinct mset_js_sort)
next
  assume "\<not> done a \<and> done b \<and> \<not> done c
    \<and> getTime h (createdAt a) = Some t1 \<and> getTime h (createdAt c) = Some t3 \<and> t1 < t3"
  then show "sortNotes h [a, b, c] (js ''status'') = [c, a, b]"
    by (simp add: sortNotes_def criteria_distinct js_sort_def sortCompare_def byStatus_def
        byDate_def)
qed

theorem sortNotes_status_witness:
  "dated sampleHost sampleNotes
   \<and> sorted_wrt (statusOrder sampleHost) (sortNotes sampleHost sampleNotes (js ''status''))
   \<and> mset (sortNotes sampleHost sampleNotes (js ''status'')) = mset sampleNotes
   \<and> sortNotes sampleHost sampleNotes (js ''status'')
       = [sampleNotes ! 2, sampleNotes ! 0, sampleNotes ! 1]"
proof -
  have times:
    "getTime sampleHost (createdAt (sampleNotes ! 0)) = Some 1672567200000"
    "getTime sampleHost (createdAt (sampleNotes ! 2)) = Some 1672574400000"
    by (simp_all add: sampleHost_def sampleNotes_def sampleTimes_def js_def)
  have status:
    "\<not> done (sampleNotes ! 0)" "done (sampleNotes ! 1)" "\<not> done (sampleNotes ! 2)"
    by (simp_all add: sampleNotes_def)
  have whole: "sampleNotes = [sampleNotes ! 0, sampleNotes ! 1, sampleNotes ! 2]"
    by (simp add: sampleNotes_def)
  note th = sortNotes_status
    [of sampleHost sampleNotes "sampleNotes ! 0" "sampleNotes ! 1" "sampleNotes ! 2"
      1672567200000 1672574400000]
  have general:
    "sorted_wrt (statusOrder sampleHost) (sortNotes sampleHost sampleNotes (js ''status''))
     \<and> mset (sortNotes sampleHost sampleNotes (js ''status'')) = mset sampleNotes"
    using th dated_sampleNotes by blast
  have "sortNotes sampleHost [sampleNotes ! 0, sampleNotes ! 1, sampleNotes ! 2] (js ''status'')
      = [sampleNotes ! 2, sampleNotes ! 0, sampleNotes ! 1]"
    using th times status by simp
  then have "sortNotes sampleHost sampleNotes (js ''status'')
      = [sampleNotes ! 2, sampleNotes ! 0, sampleNotes ! 1]"
    using whole by metis
  with general dated_sampleNotes show ?thesis
    by blast
qed

text \<open>
  Claim C7. A criterion that is neither \<open>alphabetical\<close> nor \<open>status\<close> sorts as \<open>date\<close> does:
  the result is a permutation of the notes and, for notes whose \<open>createdAt\<close> are dates,
  newest first, with notes of the same instant in the order they had. A status filter
  that is neither \<open>open\<close> nor \<open>done\<close> returns its input, as \<open>all\<close> does. Both functions are
  total: there is no criterion for which they fail.
\<close>

theorem unrecognised_criteria:
  "(sortBy \<noteq> js ''alphabetical'' \<and> sortBy \<noteq> js ''status'' \<longrightarrow>
      sortNotes h notes sortBy = sortNotes h notes (js ''date'')
      \<and> mset (sortNotes h notes sortBy) = mset notes
      \<and> (dated h notes \<longrightarrow>
           sorted_wrt (newerOrSame h) (sortNotes h notes sortBy)
           \<and> (\<forall>k \<in> set notes.
                 filter (\<lambda>n. getTime h (createdAt n) = getTime h (createdAt k))
                   (sortNotes h notes sortBy)
                 = filter (\<lambda>n. getTime h (createdAt n) = getTime h (createdAt k)) notes)))
   \<and> (flt \<noteq> js ''open'' \<and> flt \<noteq> js ''done'' \<longrightarrow>
      filterNotesByStatus notes flt = filterNotesByStatus notes (js ''all'')
      \<and> filterNotesByStatus notes flt = notes)"
  by (simp add: sortNotes_def filterNotesByStatus_def criteria_distinct sorted_byDate
      mset_js_sort stable_byDate)

theorem unrecognised_criteria_witness:
  "js ''priority'' \<noteq> js ''alphabetical'' \<and> js ''priority'' \<noteq> js ''status''
   \<and> js ''archived'' \<noteq> js ''open'' \<and> js ''archived'' \<noteq> js ''done''
   \<and> dated sampleHost sampleNotes
   \<and> sortNotes sampleHost sampleNotes (js ''priority'')
       = sortNotes sampleHost sampleNotes (js ''date'')
   \<and> sortNotes sampleHost sampleNotes (js ''priority'')
       = [sampleNotes ! 2, sampleNotes ! 1, sampleNotes ! 0]
   \<and> mset (sortNotes sampleHost sampleNotes (js ''priority'')) = mset sampleNotes
   \<and> sorted_wrt (newerOrSame sampleHost) (sortNotes sampleHost sampleNotes (js ''priority''))
   \<and> filterNotesByStatus sampleNotes (js ''archived'') = sampleNotes"
proof -
  have ne: "js ''priority'' \<noteq> js ''alphabetical''" "js ''priority'' \<noteq> js ''status''"
    "js ''archived'' \<noteq> js ''open''" "js ''archived'' \<noteq> js ''done''"
    by (simp_all add: js_def)
  have date: "sortNotes sampleHost sampleNotes (js ''date'')
      = [sampleNotes ! 2, sampleNotes ! 1, sampleNotes ! 0]"
    by (simp add: sortNotes_def criteria_distinct js_sort_def sortCompare_def byDate_def
        sampleHost_def sampleNotes_def sampleTimes_def js_def)
  have general:
    "sortNotes sampleHost sampleNotes (js ''priority'')
       = sortNotes sampleHost sampleNotes (js ''date'')
     \<and> mset (sortNotes sampleHost sampleNotes (js ''priority'')) = mset sampleNotes
     \<and> sorted_wrt (newerOrSame sampleHost) (sortNotes sampleHost sampleNotes (js ''priority''))
     \<and> filterNotesByStatus sampleNotes (js ''archived'') = sampleNotes"
    using unrecognised_criteria [of "js ''priority''" sampleHost sampleNotes "js ''archived''"]
      ne dated_sampleNotes by blast
  then have "sortNotes sampleHost sampleNotes (js ''priority'')
      = [sampleNotes ! 2, sampleNotes ! 1, sampleNotes ! 0]"
    using date by simp
  with general ne dated_sampleNotes show ?thesis
    by blast
qed

text \<open>
  Claim C10. Whatever the criterion, \<open>sortNotes\<close> returns a permutation of its input: the
  same notes with the same multiplicities, hence as many.
\<close>

theorem sortNotes_permutation:
  "mset (sortNotes h notes sortBy) = mset notes
   \<and> length (sortNotes h notes sortBy) = length notes"
proof -
  have "mset (sortNotes h notes sortBy) = mset notes"
    by (simp add: sortNotes_def mset_js_sort)
  then show ?thesis
    using mset_eq_length by blast
qed

section \<open>The parser consumes its input\<close>

text \<open>
  Every parser that succeeds returns a rest shorter than its input.
\<close>

lemma scanDigits_shorter: "scanDigits s = Some r \<Longrightarrow> length r < length s"
  using length_dropWhile_le [of isDigit "tl s"]
  by (auto simp: scanDigits_def split: list.splits if_splits)

lemma scanInt_shorter: "scanInt s = Some r \<Longrightarrow> length r < length s"
  using length_dropWhile_le [of isDigit "tl s"]
  by (auto simp: scanInt_def split: list.splits if_splits)

lemma scanFraction_le: "scanFraction s = Some r \<Longrightarrow> length r \<le> length s"
  by (auto simp: scanFraction_def split: list.splits if_splits dest!: scanDigits_shorter)

lemma scanExponent_le: "scanExponent s = Some r \<Longrightarrow> length r \<le> length s"
  by (auto simp: scanExponent_def split: list.splits if_splits dest!: scanDigits_shorter)

lemma parseNumber_shorter:
  assumes "parseNumber s = Some (lit, r)"
  shows "length r < length s"
proof -
  from assms obtain r1 r2 where
    "scanInt (case s of [] \<Rightarrow> s | c # cs \<Rightarrow> if c = 0x2D then cs else s) = Some r1"
    "scanFraction r1 = Some r2" "scanExponent r2 = Some r"
    by (auto simp: parseNumber_def split: option.splits)
  then have "length r1 < length (case s of [] \<Rightarrow> s | c # cs \<Rightarrow> if c = 0x2D then cs else s)"
    "length r2 \<le> length r1" "length r \<le> length r2"
    by (auto dest: scanInt_shorter scanFraction_le scanExponent_le)
  moreover have "length (case s of [] \<Rightarrow> s | c # cs \<Rightarrow> if c = 0x2D then cs else s) \<le> length s"
    by (simp split: list.split)
  ultimately show ?thesis
    by linarith
qed

lemma parseLiteral_shorter:
  assumes "parseLiteral s = Some (v, r)"
  shows "length r < length s"
proof -
  have "take n s = js lit \<Longrightarrow> lit \<noteq> [] \<Longrightarrow> 0 < n \<Longrightarrow> length (drop n s) < length s" for n lit
    by (cases s) (auto simp: js_def)
  with assms show ?thesis
    by (auto simp: parseLiteral_def split: if_splits dest: parseNumber_shorter)
qed

lemma skipWs_le: "length (skipWs s) \<le> length s"
  by (simp add: skipWs_def length_dropWhile_le)

lemma parse_shorter:
  "(\<forall>v r. parseValue s = Some (v, r) \<longrightarrow> length r < length s)"
  "(\<forall>vs r. parseElements s' = Some (vs, r) \<longrightarrow> length r < length s')"
  "(\<forall>ms r. parseMembers s'' = Some (ms, r) \<longrightarrow> length r < length s'')"
proof (induction s and s' and s'' rule: parseValue_parseElements_parseMembers.induct)
  case (1 s)
  show ?case
  proof (intro allI impI)
    fix v r
    assume p: "parseValue s = Some (v, r)"
    then obtain c cs where sk: "skipWs s = c # cs"
      by (subst (asm) parseValue.simps) (auto split: list.splits)
    then have len: "length cs < length s"
      by (rule skipWs_Cons_shorter)
    consider (arr) "c = 0x5B" | (obj) "c \<noteq> 0x5B" "c = 0x7B" | (str) "c \<noteq> 0x5B" "c \<noteq> 0x7B" "c = 0x22"
      | (lit) "c \<noteq> 0x5B" "c \<noteq> 0x7B" "c \<noteq> 0x22"
      by blast
    then show "length r < length s"
    proof cases
      case arr
      from p obtain d ds where sk2: "skipWs cs = d # ds"
        by (subst (asm) parseValue.simps) (auto simp: sk arr split: list.splits)
      then have len2: "length ds < length cs"
        by (rule skipWs_Cons_shorter)
      show ?thesis
      proof (cases "d = 0x5D")
        case True
        with p have "r = skipWs ds"
          by (subst (asm) parseValue.simps) (simp add: sk arr sk2)
        with len len2 skipWs_le [of ds] show ?thesis by simp
      next
        case False
        with p obtain vs r' where pe: "parseElements (d # ds) = Some (vs, r')" and r: "r = skipWs r'"
          by (subst (asm) parseValue.simps) (auto simp: sk arr sk2)
        from "1.IH"(1) [OF sk arr sk2 False] pe have "length r' < length (d # ds)"
          by blast
        with r len len2 skipWs_le [of r'] skipWs_le [of cs] sk2 show ?thesis
          by simp
      qed
    next
      case obj
      from p obtain d ds where sk2: "skipWs cs = d # ds"
        by (subst (asm) parseValue.simps) (auto simp: sk obj split: list.splits)
      then have len2: "length ds < length cs"
        by (rule skipWs_Cons_shorter)
      show ?thesis
      proof (cases "d = 0x7D")
        case True
        with p have "r = skipWs ds"
          by (subst (asm) parseValue.simps) (simp add: sk obj sk2)
        with len len2 skipWs_le [of ds] show ?thesis by simp
      next
        case False
        with p obtain ms r' where pm: "parseMembers (d # ds) = Some (ms, r')" and r: "r = skipWs r'"
          by (subst (asm) parseValue.simps) (auto simp: sk obj sk2)
        from "1.IH"(2) [OF sk obj(1) obj(2) sk2 False] pm have "length r' < length (d # ds)"
          by blast
        with r len len2 skipWs_le [of r'] skipWs_le [of cs] sk2 show ?thesis
          by simp
      qed
    next
      case str
      with p obtain str' r' where "parseChars cs = Some (str', r')" and r: "r = skipWs r'"
        by (subst (asm) parseValue.simps) (auto simp: sk)
      then have "length r' < length cs"
        by (auto dest: parseChars_shorter)
      with r len skipWs_le [of r'] show ?thesis by simp
    next
      case lit
      with p obtain r' where "parseLiteral (c # cs) = Some (v, r')" and r: "r = skipWs r'"
        by (subst (asm) parseValue.simps) (auto simp: sk)
      then have "length r' < length (c # cs)"
        by (auto dest: parseLiteral_shorter)
      with r skipWs_le [of r'] skipWs_le [of s] sk show ?thesis
        by simp
    qed
  qed
next
  case (2 s)
  show ?case
  proof (intro allI impI)
    fix vs r
    assume p: "parseElements s = Some (vs, r)"
    then obtain v c cs where pv: "parseValue s = Some (v, c # cs)"
      by (subst (asm) parseElements.simps) (auto split: option.splits list.splits)
    with "2.IH"(1) have len: "length (c # cs) < length s"
      by blast
    show "length r < length s"
    proof (cases "c = 0x5D")
      case True
      with p pv have "r = cs"
        by (subst (asm) parseElements.simps) simp
      with len show ?thesis by simp
    next
      case False
      with p pv len obtain vs' where "parseElements cs = Some (vs', r)" and comma: "c = 0x2C"
        by (subst (asm) parseElements.simps) (auto split: if_splits)
      moreover have "length cs < length s"
        using len by simp
      ultimately have "length r < length cs"
        using "2.IH"(2) [OF pv refl refl False] by blast
      with len show ?thesis by simp
    qed
  qed
next
  case (3 s)
  show ?case
  proof (intro allI impI)
    fix ms r
    assume p: "parseMembers s = Some (ms, r)"
    then obtain q cs where sk: "skipWs s = q # cs" and q: "q = 0x22"
      by (subst (asm) parseMembers.simps) (auto split: list.splits if_splits)
    from p sk q obtain key rest where pc: "parseChars cs = Some (key, rest)"
      by (subst (asm) parseMembers.simps) (auto split: option.splits)
    from p sk q pc obtain colon rest1 where sk2: "skipWs rest = colon # rest1" and colon: "colon = 0x3A"
      by (subst (asm) parseMembers.simps) (auto split: list.splits if_splits)
    from p sk q pc sk2 colon obtain v c cs' where pv: "parseValue rest1 = Some (v, c # cs')"
      by (subst (asm) parseMembers.simps) (auto split: option.splits list.splits)
    have not_q: "\<not> q \<noteq> 0x22" and not_colon: "\<not> colon \<noteq> 0x3A"
      using q colon by simp_all
    have "length (c # cs') < length rest1"
      using "3.IH"(1) [OF sk not_q pc refl sk2 not_colon] pv by blast
    moreover have "length rest1 < length rest" "length rest < length cs" "length cs < length s"
      using sk2 pc sk by (auto dest: skipWs_Cons_shorter parseChars_shorter)
    ultimately have len: "length (c # cs') < length s"
      by linarith
    show "length r < length s"
    proof (cases "c = 0x7D")
      case True
      with p sk q pc sk2 colon pv have "r = cs'"
        by (subst (asm) parseMembers.simps) simp
      with len show ?thesis by simp
    next
      case False
      with p sk q pc sk2 colon pv len obtain ms' where pm: "parseMembers cs' = Some (ms', r)"
        and comma: "c = 0x2C"
        by (subst (asm) parseMembers.simps) (auto split: if_splits)
      have "length cs' < length s"
        using len by simp
      with comma have "length r < length cs'"
        using "3.IH"(2) [OF sk not_q pc refl sk2 not_colon pv refl refl False] pm by blast
      with len show ?thesis by simp
    qed
  qed
qed

lemma parseValue_shorter: "parseValue s = Some (v, r) \<Longrightarrow> length r < length s"
  using parse_shorter(1) by blast

text \<open>The comparisons of lengths in the parser never fail: without them it reads the same.\<close>

lemma parseElements_unguarded:
  "parseElements s =
     (case parseValue s of
        None \<Rightarrow> None
      | Some (v, rest) \<Rightarrow>
         (case rest of
            [] \<Rightarrow> None
          | c # cs \<Rightarrow>
             if c = 0x5D then Some ([v], cs)
             else if c = 0x2C then
               map_option (\<lambda>(vs, rest'). (v # vs, rest')) (parseElements cs)
             else None))"
  by (subst parseElements.simps)
     (auto split: option.split list.split dest!: parseValue_shorter)

lemma parseMembers_unguarded:
  "parseMembers s =
     (case skipWs s of
        [] \<Rightarrow> None
      | q # cs \<Rightarrow>
         if q \<noteq> 0x22 then None
         else
           (case parseChars cs of
              None \<Rightarrow> None
            | Some (key, rest) \<Rightarrow>
               (case skipWs rest of
                  [] \<Rightarrow> None
                | colon # rest1 \<Rightarrow>
                   if colon \<noteq> 0x3A then None
                   else
                     (case parseValue rest1 of
                        None \<Rightarrow> None
                      | Some (v, rest2) \<Rightarrow>
                         (case rest2 of
                            [] \<Rightarrow> None
                          | c # cs' \<Rightarrow>
                             if c = 0x7D then Some ([(key, v)], cs')
                             else if c = 0x2C then
                               map_option (\<lambda>(ms, rest'). (addMember key v ms, rest'))
                                 (parseMembers cs')
                             else None)))))"
proof -
  have "length cs' < length s"
    if "skipWs s = q # cs" "parseChars cs = Some (key, rest)" "skipWs rest = colon # rest1"
      "parseValue rest1 = Some (v, c # cs')" for q cs key rest colon rest1 v c cs'
  proof -
    have "length (c # cs') < length rest1" "length rest1 < length rest" "length rest < length cs"
      "length cs < length s"
      using that by (auto dest: parseValue_shorter skipWs_Cons_shorter parseChars_shorter)
    then show ?thesis by simp
  qed
  then show ?thesis
    by (subst parseMembers.simps) (auto split: option.split list.split)
qed


section \<open>Serialising and parsing notes\<close>

text \<open>
  A four-digit escape denotes the unit it was written for, so that the units of a quoted
  string are read back as they were; a serialised note is read back as the note, and a
  serialised array of notes as the array.
\<close>

lemma unat_hexDigit:
  assumes "d < 16"
  shows "unat (hexDigit d) = (if d < 10 then 48 + d else 87 + d)"
  using assms by (simp add: hexDigit_def unat_word_ariths unat_of_nat)

lemma hexValue_hexDigit:
  assumes "d < 16"
  shows "hexValue (hexDigit d) = Some d"
  using assms by (simp add: hexValue_def word_le_nat_alt unat_hexDigit)

lemma hex_digits_sum:
  "((n div 4096 * 16 + n div 256 mod 16) * 16 + n div 16 mod 16) * 16 + n mod 16 = (n::nat)"
proof -
  have split: "n div 256 = n div 16 div 16" "n div 4096 = n div 16 div 16 div 16"
    by (simp_all add: div_mult2_eq)
  show ?thesis
    unfolding split by simp
qed

lemma hex4_unicodeEscape:
  "hex4 (hexDigit (unat c div 4096)) (hexDigit (unat c div 256 mod 16))
        (hexDigit (unat c div 16 mod 16)) (hexDigit (unat c mod 16)) = Some (c :: 16 word)"
proof -
  have "unat c < 65536"
    using unsigned_less [of c, where 'a = nat] by simp
  then have d3: "hexValue (hexDigit (unat c div 4096)) = Some (unat c div 4096)"
    by (intro hexValue_hexDigit) simp
  have d2: "hexValue (hexDigit (unat c div 256 mod 16)) = Some (unat c div 256 mod 16)"
    and d1: "hexValue (hexDigit (unat c div 16 mod 16)) = Some (unat c div 16 mod 16)"
    and d0: "hexValue (hexDigit (unat c mod 16)) = Some (unat c mod 16)"
    by (intro hexValue_hexDigit; simp)+
  have "hex4 (hexDigit (unat c div 4096)) (hexDigit (unat c div 256 mod 16))
        (hexDigit (unat c div 16 mod 16)) (hexDigit (unat c mod 16))
      = Some (of_nat (((unat c div 4096 * 16 + unat c div 256 mod 16) * 16
            + unat c div 16 mod 16) * 16 + unat c mod 16))"
    unfolding hex4_def d3 d2 d1 d0 by simp
  also have "\<dots> = Some (of_nat (unat c))"
    by (simp only: hex_digits_sum)
  finally show ?thesis by simp
qed

lemma parseChars_plain:
  "c \<noteq> 0x22 \<Longrightarrow> c \<noteq> 0x5C \<Longrightarrow> \<not> c < 0x20 \<Longrightarrow>
   parseChars (c # rest) = withUnit c (parseChars rest)"
  by simp

lemma parseChars_escape:
  "unescape e = Some u \<Longrightarrow> e \<noteq> 0x75 \<Longrightarrow>
   parseChars (0x5C # e # rest) = withUnit u (parseChars rest)"
  by simp

lemma parseChars_unicodeEscape:
  "parseChars (unicodeEscape c @ rest) = withUnit c (parseChars rest)"
  by (simp add: unicodeEscape_def hex4_unicodeEscape)

declare parseChars.simps [simp del]

lemma surrogate_plain:
  assumes "isHighSurrogate c \<or> isLowSurrogate c"
  shows "c \<noteq> 0x22" "c \<noteq> 0x5C" "\<not> c < 0x20"
  using assms by (auto simp: isHighSurrogate_def isLowSurrogate_def word_le_nat_alt word_less_nat_alt)

lemma control_plain:
  fixes c :: "16 word"
  assumes "c < 0x20"
  shows "c \<noteq> 0x22" "c \<noteq> 0x5C"
  using assms by (auto simp: word_less_nat_alt)

lemma escapeUnit_unicode:
  assumes "c < 0x20 \<or> isHighSurrogate c \<or> isLowSurrogate c"
    and "c \<noteq> 0x08" "c \<noteq> 0x09" "c \<noteq> 0x0A" "c \<noteq> 0x0C" "c \<noteq> 0x0D"
  shows "escapeUnit c = unicodeEscape c"
proof -
  have "c \<noteq> 0x22" "c \<noteq> 0x5C"
    using assms(1) surrogate_plain [of c] control_plain [of c] by blast+
  with assms show ?thesis
    by (simp add: escapeUnit_def)
qed

lemma escapeUnit_plain:
  assumes "\<not> (c < 0x20 \<or> isHighSurrogate c \<or> isLowSurrogate c)"
    and "c \<noteq> 0x22" "c \<noteq> 0x5C"
  shows "escapeUnit c = [c]"
proof -
  have "c \<noteq> 0x08" "c \<noteq> 0x09" "c \<noteq> 0x0A" "c \<noteq> 0x0C" "c \<noteq> 0x0D"
    using assms(1) by auto
  with assms show ?thesis
    by (simp add: escapeUnit_def)
qed

lemma parseChars_escapeUnit:
  "parseChars (escapeUnit c @ rest) = withUnit c (parseChars rest)"
proof (cases "c = 0x08 \<or> c = 0x09 \<or> c = 0x0A \<or> c = 0x0C \<or> c = 0x0D \<or> c = 0x22 \<or> c = 0x5C")
  case True
  then show ?thesis
    by (elim disjE) (simp_all add: escapeUnit_def parseChars_escape unescape_def)
next
  case False
  show ?thesis
  proof (cases "c < 0x20 \<or> isHighSurrogate c \<or> isLowSurrogate c")
    case True
    with False have "escapeUnit c = unicodeEscape c"
      by (intro escapeUnit_unicode) simp_all
    then show ?thesis
      by (simp add: parseChars_unicodeEscape)
  next
    case plain: False
    with False have "escapeUnit c = [c]"
      by (intro escapeUnit_plain) simp_all
    with False plain show ?thesis
      by (simp add: parseChars_plain)
  qed
qed

lemma parseChars_pair:
  "isHighSurrogate c \<Longrightarrow> isLowSurrogate d \<Longrightarrow>
   parseChars (c # d # rest) = withUnit c (withUnit d (parseChars rest))"
  by (simp add: parseChars_plain surrogate_plain)

lemma parseChars_quoteUnits:
  "parseChars (quoteUnits s @ 0x22 # rest) = Some (s, rest)"
proof (induction s rule: quoteUnits.induct)
  case 1
  then show ?case by (simp add: parseChars.simps)
next
  case (2 c)
  then show ?case by (simp add: parseChars_escapeUnit withUnit_def parseChars.simps)
next
  case (3 c d cs)
  then show ?case
    by (simp add: parseChars_escapeUnit parseChars_pair withUnit_def)
qed

lemma skipWs_plain: "\<not> isJsonWs c \<Longrightarrow> skipWs (c # s) = c # s"
  by (simp add: skipWs_def)

lemma not_ws:
  "\<not> isJsonWs 0x22" "\<not> isJsonWs 0x2C" "\<not> isJsonWs 0x3A" "\<not> isJsonWs 0x5B"
  "\<not> isJsonWs 0x5D" "\<not> isJsonWs 0x7B" "\<not> isJsonWs 0x7D"
  by (simp_all add: isJsonWs_def)

lemma parseValue_string:
  "parseValue (QuoteJSONString s @ rest) = Some (JString s, skipWs rest)"
  by (subst parseValue.simps)
     (simp add: QuoteJSONString_def skipWs_plain not_ws parseChars_quoteUnits)

lemma parseValue_bool:
  "parseValue ((if b then js ''true'' else js ''false'') @ rest) = Some (JBool b, skipWs rest)"
  by (subst parseValue.simps)
     (simp add: js_def skipWs_def isJsonWs_def parseLiteral_def)

lemma parseMembers_step:
  assumes "parseValue (vt @ c # rest) = Some (v, c # rest)"
  shows "parseMembers (keyValue k vt @ c # rest) =
     (if c = 0x7D then Some ([(js k, v)], rest)
      else if c = 0x2C then map_option (\<lambda>(ms, r). (addMember (js k) v ms, r)) (parseMembers rest)
      else None)"
  by (subst parseMembers.simps)
     (simp add: keyValue_def QuoteJSONString_def skipWs_plain not_ws parseChars_quoteUnits assms)

lemma keys_distinct:
  "js ''id'' \<noteq> js ''text''" "js ''id'' \<noteq> js ''done''" "js ''id'' \<noteq> js ''createdAt''"
  "js ''text'' \<noteq> js ''done''" "js ''text'' \<noteq> js ''createdAt''"
  "js ''done'' \<noteq> js ''createdAt''"
  by (simp_all add: js_def)

lemma parseMembers_note:
  "parseMembers
     (keyValue ''id'' (QuoteJSONString (id n))
      @ 0x2C # keyValue ''text'' (QuoteJSONString (text n))
      @ 0x2C # keyValue ''done'' (if done n then js ''true'' else js ''false'')
      @ 0x2C # keyValue ''createdAt'' (QuoteJSONString (createdAt n))
      @ 0x7D # rest)
   = Some ([(js ''id'', JString (id n)), (js ''text'', JString (text n)),
            (js ''done'', JBool (done n)), (js ''createdAt'', JString (createdAt n))], rest)"
proof -
  have m4: "parseMembers (keyValue ''createdAt'' (QuoteJSONString (createdAt n)) @ 0x7D # rest)
      = Some ([(js ''createdAt'', JString (createdAt n))], rest)"
    by (subst parseMembers_step) (simp_all add: parseValue_string skipWs_plain not_ws)
  have m3: "parseMembers
       (keyValue ''done'' (if done n then js ''true'' else js ''false'')
        @ 0x2C # keyValue ''createdAt'' (QuoteJSONString (createdAt n)) @ 0x7D # rest)
      = Some ([(js ''done'', JBool (done n)), (js ''createdAt'', JString (createdAt n))], rest)"
    by (subst parseMembers_step)
       (simp_all add: parseValue_bool skipWs_plain not_ws m4 addMember_def keys_distinct)
  have m2: "parseMembers
       (keyValue ''text'' (QuoteJSONString (text n))
        @ 0x2C # keyValue ''done'' (if done n then js ''true'' else js ''false'')
        @ 0x2C # keyValue ''createdAt'' (QuoteJSONString (createdAt n)) @ 0x7D # rest)
      = Some ([(js ''text'', JString (text n)), (js ''done'', JBool (done n)),
               (js ''createdAt'', JString (createdAt n))], rest)"
    by (subst parseMembers_step)
       (simp_all add: parseValue_string skipWs_plain not_ws m3 addMember_def keys_distinct)
  show ?thesis
    by (subst parseMembers_step)
       (simp_all add: parseValue_string skipWs_plain not_ws m2 addMember_def keys_distinct)
qed

lemma parseValue_object:
  assumes "parseMembers (0x22 # body) = Some (ms, rest)"
  shows "parseValue (0x7B # 0x22 # body) = Some (JObject ms, skipWs rest)"
  by (subst parseValue.simps) (simp add: skipWs_plain not_ws assms)

lemma parseValue_note:
  "parseValue (stringifyNote n @ rest) = Some (noteValue n, skipWs rest)"
proof -
  define mem where "mem =
      keyValue ''id'' (QuoteJSONString (id n))
      @ 0x2C # keyValue ''text'' (QuoteJSONString (text n))
      @ 0x2C # keyValue ''done'' (if done n then js ''true'' else js ''false'')
      @ 0x2C # keyValue ''createdAt'' (QuoteJSONString (createdAt n))
      @ 0x7D # rest"
  have whole: "stringifyNote n @ rest = 0x7B # mem"
    by (simp add: stringifyNote_def mem_def)
  obtain body where body: "mem = 0x22 # body"
    by (simp add: mem_def keyValue_def QuoteJSONString_def)
  have "parseMembers mem
      = Some ([(js ''id'', JString (id n)), (js ''text'', JString (text n)),
               (js ''done'', JBool (done n)), (js ''createdAt'', JString (createdAt n))], rest)"
    unfolding mem_def by (rule parseMembers_note)
  then show ?thesis
    unfolding whole body noteValue_def by (rule parseValue_object)
qed

lemma stringifyNote_first: "\<exists>tl. stringifyNote n = 0x7B # tl"
  by (simp add: stringifyNote_def)

lemma parseElements_notes:
  "parseElements (joinComma (stringifyNote n # map stringifyNote ns) @ 0x5D # rest)
   = Some (noteValue n # map noteValue ns, rest)"
proof (induction ns arbitrary: n)
  case Nil
  show ?case
    by (subst parseElements.simps) (simp add: parseValue_note skipWs_plain not_ws)
next
  case (Cons m ms)
  show ?case
    by (subst parseElements.simps) (simp add: parseValue_note skipWs_plain not_ws Cons.IH)
qed

lemma parseValue_array:
  assumes "parseElements (0x7B # body) = Some (vs, rest)"
  shows "parseValue (0x5B # 0x7B # body) = Some (JArray vs, skipWs rest)"
  by (subst parseValue.simps) (simp add: skipWs_plain not_ws assms)

lemma parseValue_notes:
  "parseValue (JSON_stringify ns) = Some (notesValue ns, [])"
proof (cases ns)
  case Nil
  then show ?thesis
    by (subst parseValue.simps)
       (simp add: JSON_stringify_def notesValue_def skipWs_plain not_ws skipWs_def)
next
  case (Cons m ms)
  obtain tl where first: "stringifyNote m = 0x7B # tl"
    using stringifyNote_first by blast
  obtain body where body: "joinComma (stringifyNote m # map stringifyNote ms) @ [0x5D] = 0x7B # body"
    by (cases ms) (simp_all add: first)
  have "parseElements (joinComma (stringifyNote m # map stringifyNote ms) @ [0x5D])
      = Some (noteValue m # map noteValue ms, [])"
    by (rule parseElements_notes)
  then have "parseValue (0x5B # 0x7B # body) = Some (JArray (noteValue m # map noteValue ms), skipWs [])"
    unfolding body by (rule parseValue_array)
  then show ?thesis
    by (simp add: JSON_stringify_def notesValue_def Cons body skipWs_def del: joinComma.simps)
qed

lemma JSON_parse_stringify: "JSON_parse (JSON_stringify ns) = Inr (notesValue ns)"
  by (simp add: JSON_parse_def parseValue_notes)

lemma JSON_stringify_nonempty: "JSON_stringify ns \<noteq> []"
  by (simp add: JSON_stringify_def)

lemma noteValue_inject: "noteValue a = noteValue b \<longleftrightarrow> a = b"
  by (cases a, cases b) (auto simp: noteValue_def)

lemma notesValue_inject: "notesValue xs = notesValue ys \<longleftrightarrow> xs = ys"
proof -
  have "inj noteValue"
    by (rule injI) (simp add: noteValue_inject)
  then show ?thesis
    by (simp add: notesValue_def inj_map_eq_map)
qed

lemma JSON_parse_invalid: "JSON_parse (js ''invalid json'') = Inl SyntaxError"
  by (simp add: JSON_parse_def parseValue.simps js_def skipWs_def isJsonWs_def parseLiteral_def
      parseNumber_def scanInt_def isDigit_def)

lemma JSON_parse_oldSchema:
  "JSON_parse oldSchemaPayload = Inr (JObject [(js ''notes'', JArray [])])"
  by (simp add: JSON_parse_def oldSchemaPayload_def parseValue.simps parseMembers.simps
      parseChars.simps js_def skipWs_def isJsonWs_def withUnit_def)

lemma payloads_nonempty: "oldSchemaPayload \<noteq> []" "js ''invalid json'' \<noteq> []"
  by (simp_all add: oldSchemaPayload_def js_def)


section \<open>Loading, saving and clearing\<close>

text \<open>
  What \<open>loadNotes\<close> does in every world. It never throws. It returns the empty array and
  logs a warning when reading the store throws or when the stored text is not JSON
  (\<open>invalid json\<close> is not); it returns the empty array, with nothing logged, when nothing
  or the empty string is stored under the key; otherwise it returns the value the stored
  text denotes, which for a text written by \<open>JSON.stringify\<close> from an array of notes is that
  array.
\<close>

lemma loadNotes_total:
  "(\<exists>v w'. loadNotes w = Inr (v, w'))
   \<and> (getFault (localStorage w) = Some e \<longrightarrow>
        loadNotes w = Inr (JArray [], console_warn w ''Failed to load notes from localStorage:'' e))
   \<and> (getFault (localStorage w) = None
        \<and> (items (localStorage w) STORAGE_KEY = None \<or> items (localStorage w) STORAGE_KEY = Some []) \<longrightarrow>
        loadNotes w = Inr (JArray [], w))
   \<and> (getFault (localStorage w) = None \<and> items (localStorage w) STORAGE_KEY = Some p \<and> p \<noteq> []
        \<and> JSON_parse p = Inl e \<longrightarrow>
        loadNotes w = Inr (JArray [], console_warn w ''Failed to load notes from localStorage:'' e))
   \<and> (getFault (localStorage w) = None \<and> items (localStorage w) STORAGE_KEY = Some p \<and> p \<noteq> []
        \<and> JSON_parse p = Inr v \<longrightarrow>
        loadNotes w = Inr (v, w))
   \<and> (getFault (localStorage w) = None
        \<and> items (localStorage w) STORAGE_KEY = Some (JSON_stringify ns) \<longrightarrow>
        loadNotes w = Inr (notesValue ns, w))
   \<and> JSON_parse (js ''invalid json'') = Inl SyntaxError"
proof (intro conjI impI)
  show "\<exists>v w'. loadNotes w = Inr (v, w')"
    by (simp add: loadNotes_def try_catch_def getItem_def split: option.split sum.split)
next
  show "JSON_parse (js ''invalid json'') = Inl SyntaxError"
    by (rule JSON_parse_invalid)
next
  assume "getFault (localStorage w) = None
    \<and> items (localStorage w) STORAGE_KEY = Some (JSON_stringify ns)"
  then show "loadNotes w = Inr (notesValue ns, w)"
    by (simp add: loadNotes_def try_catch_def getItem_def JSON_stringify_nonempty
        JSON_parse_stringify)
qed (auto simp: loadNotes_def try_catch_def getItem_def)

lemma loadNotes_total_sample:
  "loadNotes deniedWorld
     = Inr (JArray [], console_warn deniedWorld ''Failed to load notes from localStorage:'' SecurityError)
   \<and> loadNotes emptyWorld = Inr (JArray [], emptyWorld)
   \<and> loadNotes (storedWorld (js ''invalid json''))
     = Inr (JArray [], console_warn (storedWorld (js ''invalid json''))
              ''Failed to load notes from localStorage:'' SyntaxError)
   \<and> loadNotes (storedWorld oldSchemaPayload)
     = Inr (JObject [(js ''notes'', JArray [])], storedWorld oldSchemaPayload)
   \<and> loadNotes (storedWorld (JSON_stringify sampleNotes))
     = Inr (notesValue sampleNotes, storedWorld (JSON_stringify sampleNotes))"
proof -
  have stored: "getFault (localStorage (storedWorld p)) = None"
    "items (localStorage (storedWorld p)) STORAGE_KEY = Some p" for p
    by (simp_all add: storedWorld_def)
  have "loadNotes deniedWorld
      = Inr (JArray [], console_warn deniedWorld ''Failed to load notes from localStorage:'' SecurityError)"
    using loadNotes_total [of deniedWorld SecurityError] by (simp add: deniedWorld_def)
  moreover have "loadNotes emptyWorld = Inr (JArray [], emptyWorld)"
    using loadNotes_total [of emptyWorld] by (simp add: emptyWorld_def)
  moreover have "loadNotes (storedWorld (js ''invalid json''))
      = Inr (JArray [], console_warn (storedWorld (js ''invalid json''))
               ''Failed to load notes from localStorage:'' SyntaxError)"
    using loadNotes_total [of "storedWorld (js ''invalid json'')" SyntaxError "js ''invalid json''"]
      stored JSON_parse_invalid payloads_nonempty by blast
  moreover have "loadNotes (storedWorld oldSchemaPayload)
      = Inr (JObject [(js ''notes'', JArray [])], storedWorld oldSchemaPayload)"
    using loadNotes_total [of "storedWorld oldSchemaPayload" _ oldSchemaPayload
        "JObject [(js ''notes'', JArray [])]"]
      stored JSON_parse_oldSchema payloads_nonempty by blast
  moreover have "loadNotes (storedWorld (JSON_stringify sampleNotes))
      = Inr (notesValue sampleNotes, storedWorld (JSON_stringify sampleNotes))"
    using loadNotes_total [of "storedWorld (JSON_stringify sampleNotes)" _ _ _ sampleNotes]
      stored by blast
  ultimately show ?thesis
    by blast
qed

text \<open>
  Claim C1. The claim, like the comment above \<open>loadNotes\<close> in the source (an array of notes,
  the empty array if there are none or parsing fails), promises a sequence in every state
  of the store, and the empty one whenever the stored text is not a sequence of notes. The
  code checks only that the text is JSON. With the text of an object stored under the
  key, here one left by another schema, \<open>loadNotes\<close> returns that object: the result is
  neither the empty sequence nor a sequence at all, and nothing is logged.
\<close>

theorem loadNotes_returns_object:
  "items (localStorage (storedWorld oldSchemaPayload)) STORAGE_KEY = Some oldSchemaPayload
   \<and> loadNotes (storedWorld oldSchemaPayload)
     = Inr (JObject [(js ''notes'', JArray [])], storedWorld oldSchemaPayload)
   \<and> \<not> isSequence (JObject [(js ''notes'', JArray [])])
   \<and> JObject [(js ''notes'', JArray [])] \<noteq> JArray []"
  by (simp add: loadNotes_def try_catch_def getItem_def storedWorld_def JSON_parse_oldSchema
      isSequence_def payloads_nonempty)

text \<open>
  Claim C6. In a world whose store is healthy, \<open>saveNotes ns\<close> followed by \<open>loadNotes\<close>
  returns the value of \<open>ns\<close>; two arrays of notes with the same value are the same
  array, so what is loaded is equal to \<open>ns\<close> field by field.
\<close>

theorem save_then_load:
  "(healthy (localStorage w) \<longrightarrow>
      (\<exists>w'. saveNotes ns w = Inr w' \<and> loadNotes w' = Inr (notesValue ns, w')))
   \<and> (notesValue ns' = notesValue ns) = (ns' = ns)"
  by (simp add: healthy_def saveNotes_def setItem_def loadNotes_def getItem_def try_catch_def
      JSON_stringify_nonempty JSON_parse_stringify notesValue_inject)

theorem save_then_load_witness:
  "healthy (localStorage emptyWorld)
   \<and> (\<exists>w'. saveNotes sampleNotes emptyWorld = Inr w'
        \<and> loadNotes w' = Inr (notesValue sampleNotes, w'))
   \<and> notesValue (map toggleNote sampleNotes) \<noteq> notesValue sampleNotes"
proof -
  have "healthy (localStorage emptyWorld)"
    by (simp add: healthy_def emptyWorld_def)
  moreover have "map toggleNote sampleNotes \<noteq> sampleNotes"
    by (simp add: sampleNotes_def toggleNote_def)
  ultimately show ?thesis
    using save_then_load [of emptyWorld sampleNotes "map toggleNote sampleNotes"] by blast
qed

text \<open>
  Claim C8. \<open>saveNotes\<close> and \<open>clearNotes\<close> never throw. When the store accepts the
  operation the item is written, or removed, and nothing is logged; when the store throws,
  the store is left as it was and one entry of severity \<open>Error\<close> is added to the console,
  where a failed load adds one of severity \<open>Warning\<close>.
\<close>

theorem save_clear_total:
  "(\<exists>w'. saveNotes ns w = Inr w') \<and> (\<exists>w'. clearNotes w = Inr w')
   \<and> (setFault (localStorage w) = None \<longrightarrow>
        saveNotes ns w = Inr (w \<lparr> localStorage := (localStorage w)
          \<lparr> items := (items (localStorage w))(STORAGE_KEY \<mapsto> JSON_stringify ns) \<rparr> \<rparr>))
   \<and> (setFault (localStorage w) = Some e \<longrightarrow>
        saveNotes ns w = Inr (console_error w ''Failed to save notes to localStorage:'' e))
   \<and> (removeFault (localStorage w) = None \<longrightarrow>
        clearNotes w = Inr (w \<lparr> localStorage := (localStorage w)
          \<lparr> items := (items (localStorage w))(STORAGE_KEY := None) \<rparr> \<rparr>))
   \<and> (removeFault (localStorage w) = Some e \<longrightarrow>
        clearNotes w = Inr (console_error w ''Failed to clear notes from localStorage:'' e))
   \<and> localStorage (console_error w msg e) = localStorage w
   \<and> console (console_error w msg e) = console w @ [(Error, msg, e)]
   \<and> console (console_warn w msg e) = console w @ [(Warning, msg, e)]
   \<and> Error \<noteq> Warning"
  by (auto simp: saveNotes_def clearNotes_def setItem_def removeItem_def try_catch_def
      console_error_def console_warn_def split: option.split)

theorem save_clear_total_witness:
  "saveNotes sampleNotes deniedWorld
     = Inr (console_error deniedWorld ''Failed to save notes to localStorage:'' QuotaExceededError)
   \<and> clearNotes deniedWorld
     = Inr (console_error deniedWorld ''Failed to clear notes from localStorage:'' SecurityError)
   \<and> saveNotes sampleNotes emptyWorld = Inr (storedWorld (JSON_stringify sampleNotes))
   \<and> clearNotes (storedWorld (JSON_stringify sampleNotes)) = Inr emptyWorld"
proof -
  have "saveNotes sampleNotes deniedWorld
      = Inr (console_error deniedWorld ''Failed to save notes to localStorage:'' QuotaExceededError)"
    using save_clear_total [of sampleNotes deniedWorld QuotaExceededError]
    by (simp add: deniedWorld_def)
  moreover have "clearNotes deniedWorld
      = Inr (console_error deniedWorld ''Failed to clear notes from localStorage:'' SecurityError)"
    using save_clear_total [of sampleNotes deniedWorld SecurityError]
    by (simp add: deniedWorld_def)
  moreover have "saveNotes sampleNotes emptyWorld = Inr (storedWorld (JSON_stringify sampleNotes))"
    using save_clear_total [of sampleNotes emptyWorld]
    by (simp add: emptyWorld_def storedWorld_def)
  moreover have "clearNotes (storedWorld (JSON_stringify sampleNotes)) = Inr emptyWorld"
    using save_clear_total [of sampleNotes "storedWorld (JSON_stringify sampleNotes)"]
    by (simp add: emptyWorld_def storedWorld_def)
  ultimately show ?thesis
    by blast
qed

section \<open>Searching\<close>


















section \<open>Statistics in binary64\<close>

lemma pow2_powi: "pow2 e = 2 powi e"
  by (simp add: pow2_def power_int_def inverse_eq_divide power_one_over)

lemma pow2_pos: "0 < pow2 e"
  by (simp add: pow2_powi)

lemma pow2_add: "pow2 (a + b) = pow2 a * pow2 b"
  by (simp add: pow2_powi power_int_add)

lemma pow2_mono: "a \<le> b \<Longrightarrow> pow2 a \<le> pow2 b"
  by (simp add: pow2_powi power_int_increasing)

lemma pow2_nat: "pow2 (int n) = 2 ^ n"
  by (simp add: pow2_def)

text \<open>The bounds on a positive rational that its binade names.\<close>

lemma binade_bounds:
  assumes "0 < x"
  shows "pow2 (binade x) \<le> x \<and> x < pow2 (binade x + 1)"
proof -
  obtain a b where q: "quotient_of x = (a, b)"
    by (cases "quotient_of x")
  then have b: "0 < b" and x: "x = of_int a / of_int b"
    by (simp_all add: quotient_of_denom_pos quotient_of_div)
  with assms have a: "0 < a"
    by (simp add: zero_less_divide_iff)
  define la lb where "la = bitlen a" and "lb = bitlen b"
  have la: "2 ^ nat (la - 1) \<le> a" "a < 2 ^ nat la" and lb: "2 ^ nat (lb - 1) \<le> b" "b < 2 ^ nat lb"
    using bitlen_bounds [OF a] bitlen_bounds [OF b] by (simp_all add: la_def lb_def)
  have pos: "1 \<le> la" "1 \<le> lb"
    using a b by (simp_all add: la_def lb_def bitlen_alt_def)
  have int_bound: "pow2 (int n) \<le> of_int k \<longleftrightarrow> 2 ^ n \<le> k"
    "of_int k < pow2 (int n) \<longleftrightarrow> k < 2 ^ n" for n k
    using of_int_le_iff [of "2 ^ n" k, where 'a = rat] of_int_less_iff [of k "2 ^ n", where 'a = rat]
    by (simp_all add: pow2_nat)
  have "la - 1 = int (nat (la - 1))" "la = int (nat la)" "lb - 1 = int (nat (lb - 1))"
    "lb = int (nat lb)"
    using pos by simp_all
  then have ra: "pow2 (la - 1) \<le> of_int a" "(of_int a :: rat) < pow2 la"
    and rb: "pow2 (lb - 1) \<le> of_int b" "(of_int b :: rat) < pow2 lb"
    using la lb int_bound by metis+
  have low: "pow2 (la - lb - 1) < x"
  proof -
    have "pow2 (la - lb - 1) * of_int b < pow2 (la - lb - 1) * pow2 lb"
      using rb(2) pow2_pos by (simp add: mult_strict_left_mono)
    also have "\<dots> = pow2 (la - 1)"
      by (simp flip: pow2_add)
    also have "\<dots> \<le> of_int a"
      by (rule ra(1))
    finally show ?thesis
      using b by (simp add: x pos_less_divide_eq)
  qed
  have high: "x < pow2 (la - lb + 1)"
  proof -
    have "of_int a < pow2 la"
      by (rule ra(2))
    also have "\<dots> = pow2 (la - lb + 1) * pow2 (lb - 1)"
      by (simp flip: pow2_add)
    also have "\<dots> \<le> pow2 (la - lb + 1) * of_int b"
      using rb(1) pow2_pos by (simp add: mult_left_mono less_imp_le)
    finally show ?thesis
      using b by (simp add: x pos_divide_less_eq)
  qed
  have "\<bar>x\<bar> = x"
    using assms by simp
  then have "binade x = (if pow2 (la - lb) \<le> x then la - lb else la - lb - 1)"
    by (simp add: binade_def q la_def lb_def)
  with low high show ?thesis
    by (auto simp: less_imp_le not_le)
qed

lemma roundTiesToEven_error: "\<bar>of_int (roundTiesToEven y) - y\<bar> \<le> 1 / 2"
proof -
  have "of_int \<lfloor>y\<rfloor> \<le> y" "y < of_int \<lfloor>y\<rfloor> + 1"
    by linarith+
  then show ?thesis
    by (auto simp: roundTiesToEven_def Let_def abs_le_iff)
qed

text \<open>Rounding to binary64 has relative error at most \<open>2^-53\<close>.\<close>

lemma double_error:
  assumes "0 < x"
  shows "\<bar>double x - x\<bar> \<le> x / 2 ^ 53"
proof -
  define ulp where "ulp = pow2 (binade x - 52)"
  have ulp: "0 < ulp"
    by (simp add: ulp_def pow2_pos)
  have "pow2 (binade x) = ulp * 2 ^ 52"
    using pow2_add [of "binade x - 52" 52] by (simp add: ulp_def pow2_def)
  with binade_bounds [OF assms] have le: "ulp * 2 ^ 52 \<le> x"
    by simp
  have "double x - x = (of_int (roundTiesToEven (x / ulp)) - x / ulp) * ulp"
    using assms ulp by (simp add: double_def ulp_def [symmetric] Let_def field_simps)
  then have "\<bar>double x - x\<bar> = \<bar>of_int (roundTiesToEven (x / ulp)) - x / ulp\<bar> * ulp"
    using ulp by (simp add: abs_mult)
  also have "\<dots> \<le> 1 / 2 * ulp"
    using roundTiesToEven_error [of "x / ulp"] ulp by (simp add: mult_right_mono less_imp_le)
  also have "\<dots> \<le> x / 2 ^ 53"
    using le by (simp add: field_simps)
  finally show ?thesis .
qed

lemma double_pos:
  assumes "0 < x"
  shows "0 < double x"
proof -
  have "x / 2 ^ 53 < x"
    using assms by (simp add: field_simps)
  with double_error [OF assms] show ?thesis
    by linarith
qed

text \<open>
  The percentage computed in binary64 differs from the exact one by less than \<open>2^-44\<close>.
\<close>

lemma percent_error:
  assumes "0 \<le> c" "c \<le> t" "0 < t"
  shows "\<bar>js_mul (js_div (of_int c) (of_int t)) 100 - exactPercent c t\<bar> < 1 / 2 ^ 44"
proof (cases "c = 0")
  case True
  then show ?thesis
    by (simp add: js_mul_def js_div_def double_def exactPercent_def)
next
  case False
  define x :: rat where "x = of_int c / of_int t"
  define q where "q = double x"
  define r where "r = double (q * 100)"
  define h :: rat where "h = 1 / 2 ^ 53"
  have x: "0 < x" "x \<le> 1"
    using assms False by (simp_all add: x_def)
  have xh: "x / 2 ^ 53 \<le> h"
    using x(2) by (simp add: h_def divide_right_mono)
  have q: "\<bar>q - x\<bar> \<le> h" "0 < q"
    using double_error [OF x(1)] double_pos [OF x(1)] xh by (simp_all add: q_def)
  then have q100: "0 < q * 100"
    by simp
  have "q \<le> 1 + h"
    using q(1) x(2) by linarith
  also have "\<dots> \<le> 2"
    by (simp add: h_def)
  finally have "q * 100 / 2 ^ 53 \<le> 200 / 2 ^ 53"
    by (simp add: divide_right_mono)
  also have "\<dots> = 200 * h"
    by (simp add: h_def)
  finally have r: "\<bar>r - q * 100\<bar> \<le> 200 * h"
    using double_error [OF q100] by (simp add: r_def)
  from q(1) have "\<bar>q * 100 - x * 100\<bar> \<le> 100 * h"
    by linarith
  with r have "\<bar>r - x * 100\<bar> \<le> 300 * h"
    by linarith
  also have "\<dots> < 1 / 2 ^ 44"
    by (simp add: h_def)
  finally show ?thesis
    by (simp add: js_mul_def js_div_def r_def q_def x_def exactPercent_def)
qed

text \<open>
  When the exact percentage is not halfway between two integers, it keeps a distance of
  at least \<open>1 / (2 t)\<close> from both halves around its rounded value.
\<close>

lemma half_gap:
  assumes "0 < t" "\<not> tie c t"
  defines "k \<equiv> roundHalfUp (exactPercent c t)"
  shows "of_int k - 1 / 2 + 1 / (2 * of_int t) \<le> exactPercent c t"
    and "exactPercent c t \<le> of_int k + 1 / 2 - 1 / (2 * of_int t)"
proof -
  have p: "exactPercent c t + 1 / 2 = of_int (200 * c + t) / of_int (2 * t)"
    using assms(1) by (simp add: exactPercent_def field_simps)
  then have k: "k = (200 * c + t) div (2 * t)"
    unfolding k_def roundHalfUp_def by (simp only: p floor_divide_of_int_eq)
  have low: "2 * t * k \<le> 200 * c + t" and up: "200 * c + t < 2 * t * k + 2 * t"
    using assms(1) unfolding k
    by (simp_all add: pos_mod_bound [of "2 * t"] pos_mod_sign [of "2 * t"]
        minus_mod_eq_mult_div [symmetric] less_eq_div_iff_mult_less_eq algebra_simps)
  have "200 * c + t \<noteq> 2 * t * k"
  proof
    assume "200 * c + t = 2 * t * k"
    then have "200 * c = t * (2 * k - 1)"
      by (simp add: algebra_simps)
    with assms(1) have "tie c t"
      by (simp add: tie_def)
    with assms(2) show False ..
  qed
  with low have low': "2 * t * k + 1 \<le> 200 * c + t"
    by simp
  from up have up': "200 * c + t + 1 \<le> 2 * t * k + 2 * t"
    by simp
  define T C KT :: rat where "T = of_int t" and "C = of_int c" and "KT = of_int k * of_int t"
  have T: "0 < T"
    using assms(1) by (simp add: T_def)
  have "of_int (2 * t * k + 1) \<le> (of_int (200 * c + t) :: rat)"
    using low' by (simp only: of_int_le_iff)
  then have lowq: "2 * KT + 1 \<le> 200 * C + T"
    by (simp add: T_def C_def KT_def algebra_simps)
  have "(of_int (200 * c + t + 1) :: rat) \<le> of_int (2 * t * k + 2 * t)"
    using up' by (simp only: of_int_le_iff)
  then have upq: "200 * C + T + 1 \<le> 2 * KT + 2 * T"
    by (simp add: T_def C_def KT_def algebra_simps)
  have gap: "(1 / (2 * T)) * T = 1 / 2" and kt: "of_int k * T = KT"
    using T by (simp_all add: KT_def T_def)
  have "(of_int k - 1 / 2 + 1 / (2 * T)) * T = KT - T / 2 + 1 / 2"
    by (simp only: distrib_right left_diff_distrib gap kt)
  also have "\<dots> \<le> 100 * C"
    using lowq by linarith
  finally have "of_int k - 1 / 2 + 1 / (2 * T) \<le> 100 * C / T"
    using T by (simp only: pos_le_divide_eq)
  then show "of_int k - 1 / 2 + 1 / (2 * of_int t) \<le> exactPercent c t"
    by (simp add: exactPercent_def T_def C_def)
  have "(of_int k + 1 / 2 - 1 / (2 * T)) * T = KT + T / 2 - 1 / 2"
    by (simp only: distrib_right left_diff_distrib gap kt)
  moreover have "100 * C \<le> KT + T / 2 - 1 / 2"
    using upq by linarith
  ultimately have "100 * C / T \<le> of_int k + 1 / 2 - 1 / (2 * T)"
    using T by (simp only: pos_divide_le_eq)
  then show "exactPercent c t \<le> of_int k + 1 / 2 - 1 / (2 * of_int t)"
    by (simp add: exactPercent_def T_def C_def)
qed

lemma small_gap:
  assumes "0 < t" "t < 2 ^ 32"
  shows "(1 / 2 ^ 44 :: rat) < 1 / (2 * of_int t)"
proof -
  have "2 * t < 2 ^ 44"
    using assms by simp
  then have "(of_int (2 * t) :: rat) < of_int (2 ^ 44)"
    by (simp only: of_int_less_iff)
  then have "2 * (of_int t :: rat) < 2 ^ 44"
    by simp
  moreover have "(0 :: rat) < 2 * of_int t"
    using assms by simp
  ultimately show ?thesis
    by (simp only: frac_less2 [of 1 1, simplified] divide_strict_left_mono zero_less_one
        mult_pos_pos zero_less_numeral zero_less_power)
qed

lemma rate_exact:
  assumes "0 \<le> c" "c \<le> t" "0 < t" "t < 2 ^ 32" "\<not> tie c t"
  shows "Math_round (js_mul (js_div (of_int c) (of_int t)) 100) = roundHalfUp (exactPercent c t)"
proof -
  define r where "r = js_mul (js_div (of_int c) (of_int t)) 100"
  define p where "p = exactPercent c t"
  define k where "k = roundHalfUp p"
  define g :: rat where "g = 1 / (2 * of_int t)"
  have close: "\<bar>r - p\<bar> < 1 / 2 ^ 44"
    unfolding r_def p_def using assms(1-3) by (rule percent_error)
  have g: "1 / 2 ^ 44 < g"
    unfolding g_def using assms(3,4) by (rule small_gap)
  have "of_int k - 1 / 2 + g \<le> p" "p \<le> of_int k + 1 / 2 - g"
    unfolding k_def p_def g_def using assms(3,5) by (rule half_gap)+
  with close g have "of_int k \<le> r + 1 / 2" "r + 1 / 2 < of_int k + 1"
    by linarith+
  then have "\<lfloor>r + 1 / 2\<rfloor> = k"
    by (simp only: floor_unique)
  then show ?thesis
    by (simp add: Math_round_def r_def k_def p_def)
qed

lemma tie_half:
  assumes "0 < t" "tie c t"
  shows "exactPercent c t + 1 / 2 = of_int (roundHalfUp (exactPercent c t))"
proof -
  from assms(2) obtain n where n: "200 * c = t * n" "odd n"
    using assms(1) by (auto simp: tie_def dvd_def)
  then obtain m where m: "n = 2 * m + 1"
    by (auto elim: oddE)
  have "(of_int (200 * c) :: rat) = of_int (t * (2 * m + 1))"
    using n(1) m by simp
  then have "200 * (of_int c :: rat) = of_int t * (2 * of_int m + 1)"
    by simp
  then have "exactPercent c t + 1 / 2 = of_int (m + 1)"
    using assms(1) by (simp add: exactPercent_def field_simps)
  then show ?thesis
    by (simp only: roundHalfUp_def floor_of_int)
qed

lemma roundTiesToEven_of_int: "roundTiesToEven (of_int n) = n"
  by (simp add: roundTiesToEven_def)

lemma pow2_less_cancel:
  assumes "pow2 a < pow2 b"
  shows "a < b"
proof (rule ccontr)
  assume "\<not> a < b"
  then have "pow2 b \<le> pow2 a"
    by (simp add: pow2_mono)
  with assms show False
    by simp
qed

text \<open>A positive dyadic rational with a numerator below \<open>2^53\<close> is a binary64 value.\<close>

lemma double_dyadic:
  assumes "0 < m" "m < 2 ^ 53"
  shows "double (of_int m / 2 ^ j) = of_int m / 2 ^ j"
proof -
  define x :: rat where "x = of_int m / 2 ^ j"
  define e where "e = binade x"
  have x: "0 < x"
    using assms(1) by (simp add: x_def)
  have mj: "x = of_int m * pow2 (- int j)"
    by (simp add: x_def pow2_def)
  have "(of_int m :: rat) < 2 ^ 53"
    using assms(2) by (metis of_int_less_iff of_int_numeral of_int_power)
  then have "x < 2 ^ 53 * pow2 (- int j)"
    unfolding mj using pow2_pos [of "- int j"] by (simp only: mult_strict_right_mono)
  also have "\<dots> = pow2 (53 - int j)"
    using pow2_add [of 53 "- int j"] pow2_nat [of 53] by simp
  finally have "pow2 e < pow2 (53 - int j)"
    using binade_bounds [OF x] by (simp add: e_def)
  then have "e < 53 - int j"
    by (rule pow2_less_cancel)
  then obtain d where d: "52 - e - int j = int d"
    using zero_le_imp_eq_int [of "52 - e - int j"] by auto
  have "x / pow2 (e - 52) = x * pow2 (52 - e)"
    using pow2_add [of "e - 52" "52 - e"] pow2_pos [of "e - 52"]
    by (simp add: pow2_def field_simps)
  also have "\<dots> = of_int m * pow2 (52 - e - int j)"
    using pow2_add [of "- int j" "52 - e"] by (simp add: mj algebra_simps)
  also have "\<dots> = of_int (m * 2 ^ d)"
    by (simp add: d pow2_nat)
  finally have int: "x / pow2 (e - 52) = of_int (m * 2 ^ d)" .
  have "double x = of_int (m * 2 ^ d) * pow2 (e - 52)"
    using x by (simp add: double_def Let_def e_def [symmetric] int roundTiesToEven_of_int
        del: of_int_mult of_int_power)
  also have "\<dots> = x"
    using int pow2_pos [of "e - 52"] by (simp add: field_simps)
  finally show ?thesis
    by (simp add: x_def)
qed

lemma percent_power_of_two:
  assumes "0 \<le> c" "c < 2 ^ 32"
  shows "js_mul (js_div (of_int c) (2 ^ j)) 100 = exactPercent c (2 ^ j)"
proof (cases "c = 0")
  case True
  then show ?thesis
    by (simp add: js_mul_def js_div_def double_def exactPercent_def)
next
  case False
  with assms have c: "0 < c" "c < 2 ^ 53" "0 < c * 100" "c * 100 < 2 ^ 53"
    by simp_all
  have "js_div (of_int c) (2 ^ j) = of_int c / 2 ^ j"
    unfolding js_div_def using c(1,2) by (rule double_dyadic)
  moreover have "double (of_int (c * 100) / 2 ^ j) = of_int (c * 100) / 2 ^ j"
    using c(3,4) by (rule double_dyadic)
  ultimately show ?thesis
    by (simp add: js_mul_def exactPercent_def)
qed

lemma rate_power_of_two:
  assumes "0 \<le> c" "c < 2 ^ 32"
  shows "Math_round (js_mul (js_div (of_int c) (of_int (2 ^ j))) 100)
     = roundHalfUp (exactPercent c (2 ^ j))"
  using percent_power_of_two [OF assms, of j] by (simp add: Math_round_def roundHalfUp_def)

lemma rate_tie_sign:
  assumes "0 \<le> c" "c \<le> t" "0 < t" "tie c t"
  shows "Math_round (js_mul (js_div (of_int c) (of_int t)) 100)
     = (if js_mul (js_div (of_int c) (of_int t)) 100 < exactPercent c t
        then roundHalfUp (exactPercent c t) - 1 else roundHalfUp (exactPercent c t))"
proof -
  define r where "r = js_mul (js_div (of_int c) (of_int t)) 100"
  define p where "p = exactPercent c t"
  define k where "k = roundHalfUp p"
  have close: "\<bar>r - p\<bar> < 1 / 2 ^ 44"
    unfolding r_def p_def using assms(1-3) by (rule percent_error)
  have small: "(1 / 2 ^ 44 :: rat) < 1 / 2"
    by simp
  have half: "p + 1 / 2 = of_int k"
    unfolding k_def p_def using assms(3,4) by (rule tie_half)
  have "\<lfloor>r + 1 / 2\<rfloor> = (if r < p then k - 1 else k)"
  proof (cases "r < p")
    case True
    have "(of_int (k - 1) :: rat) = of_int k - 1"
      by simp
    with True close small half have "of_int (k - 1) \<le> r + 1 / 2" "r + 1 / 2 < of_int (k - 1) + 1"
      by linarith+
    then have "\<lfloor>r + 1 / 2\<rfloor> = k - 1"
      by (simp only: floor_unique)
    with True show ?thesis by simp
  next
    case False
    with close small half have "of_int k \<le> r + 1 / 2" "r + 1 / 2 < of_int k + 1"
      by linarith+
    then have "\<lfloor>r + 1 / 2\<rfloor> = k"
      by (simp only: floor_unique)
    with False show ?thesis by simp
  qed
  then show ?thesis
    by (simp add: Math_round_def r_def k_def p_def)
qed

lemma Math_round_half_up:
  "of_int (Math_round x) \<le> x + 1 / 2 \<and> x + 1 / 2 < of_int (Math_round x) + 1"
  unfolding Math_round_def by linarith

lemma stats_fields:
  "total (calculateStats ns) = int (length ns)"
  "completed (calculateStats ns) = int (length (filter (\<lambda>note. done note) ns))"
  "pending (calculateStats ns) = total (calculateStats ns) - completed (calculateStats ns)"
  "completionRate (calculateStats ns) =
     (if ns = [] then 0
      else Math_round (js_mul (js_div (of_int (completed (calculateStats ns)))
             (of_int (total (calculateStats ns)))) 100))"
  by (simp_all add: calculateStats_def Let_def)

lemma completed_bounds:
  "0 \<le> completed (calculateStats ns)" "completed (calculateStats ns) \<le> total (calculateStats ns)"
  by (simp_all add: stats_fields)

text \<open>
  Claim C2, as the code has it. \<open>total\<close> is the length, \<open>completed\<close> the number of done
  notes, \<open>pending\<close> their difference. \<open>completionRate\<close> is \<open>0\<close> for no notes and otherwise
  \<open>Math.round\<close>, which rounds to the nearest integer and a half upwards, of the binary64
  product of the binary64 quotient with 100. For an array (fewer than \<open>2^32\<close> notes) this is
  the exact percentage rounded half up whenever that percentage is not halfway between
  two integers (one of three gives 33, two of three give 67) and whenever the total is a
  power of two (one of eight gives 13). At a tie it is the exact percentage rounded half
  up unless the binary64 product falls below the exact percentage; then it is one less
  (twenty-three of forty give 57).
\<close>

theorem calculateStats_spec:
  "total (calculateStats ns) = int (length ns)
   \<and> completed (calculateStats ns) = int (length (filter (\<lambda>note. done note) ns))
   \<and> pending (calculateStats ns) = total (calculateStats ns) - completed (calculateStats ns)
   \<and> completed (calculateStats ns) + pending (calculateStats ns) = total (calculateStats ns)
   \<and> (ns = [] \<longrightarrow> completionRate (calculateStats ns) = 0)
   \<and> completionRate (calculateStats ns)
       = (if ns = [] then 0
          else Math_round (js_mul (js_div (of_int (completed (calculateStats ns)))
                 (of_int (total (calculateStats ns)))) 100))
   \<and> of_int (Math_round x) \<le> x + 1 / 2 \<and> x + 1 / 2 < of_int (Math_round x) + 1
   \<and> (ns \<noteq> [] \<and> length ns < 2 ^ 32
        \<and> \<not> tie (completed (calculateStats ns)) (total (calculateStats ns)) \<longrightarrow>
        completionRate (calculateStats ns)
          = roundHalfUp (exactPercent (completed (calculateStats ns)) (total (calculateStats ns))))
   \<and> (length ns < 2 ^ 32 \<and> length ns = 2 ^ j \<longrightarrow>
        completionRate (calculateStats ns)
          = roundHalfUp (exactPercent (completed (calculateStats ns)) (total (calculateStats ns))))
   \<and> (ns \<noteq> [] \<and> tie (completed (calculateStats ns)) (total (calculateStats ns)) \<longrightarrow>
        completionRate (calculateStats ns)
          = (if js_mul (js_div (of_int (completed (calculateStats ns)))
                  (of_int (total (calculateStats ns)))) 100
                < exactPercent (completed (calculateStats ns)) (total (calculateStats ns))
             then roundHalfUp (exactPercent (completed (calculateStats ns)) (total (calculateStats ns))) - 1
             else roundHalfUp (exactPercent (completed (calculateStats ns)) (total (calculateStats ns)))))"
proof (intro conjI impI)
  assume a: "ns \<noteq> [] \<and> length ns < 2 ^ 32
    \<and> \<not> tie (completed (calculateStats ns)) (total (calculateStats ns))"
  then have "0 < total (calculateStats ns)" "total (calculateStats ns) < 2 ^ 32"
    by (simp_all add: stats_fields(1))
  with a completed_bounds [of ns]
  show "completionRate (calculateStats ns)
      = roundHalfUp (exactPercent (completed (calculateStats ns)) (total (calculateStats ns)))"
    by (simp add: stats_fields(4) rate_exact)
next
  assume a: "length ns < 2 ^ 32 \<and> length ns = 2 ^ j"
  then have t: "total (calculateStats ns) = 2 ^ j" "ns \<noteq> []"
    by (auto simp: stats_fields(1))
  have "completed (calculateStats ns) \<le> int (length ns)"
    using completed_bounds(2) [of ns] by (simp add: stats_fields(1))
  also have "\<dots> < 2 ^ 32"
  proof -
    from a have "length ns < 2 ^ 32"
      by (rule conjunct1)
    then have "int (length ns) < int (2 ^ 32)"
      by (simp only: of_nat_less_iff)
    then show ?thesis
      by simp
  qed
  finally have "completed (calculateStats ns) < 2 ^ 32" .
  then have "Math_round (js_mul (js_div (of_int (completed (calculateStats ns))) (of_int (2 ^ j))) 100)
      = roundHalfUp (exactPercent (completed (calculateStats ns)) (2 ^ j))"
    using completed_bounds(1) [of ns] by (intro rate_power_of_two)
  with t show "completionRate (calculateStats ns)
      = roundHalfUp (exactPercent (completed (calculateStats ns)) (total (calculateStats ns)))"
    by (simp add: stats_fields(4))
next
  assume a: "ns \<noteq> [] \<and> tie (completed (calculateStats ns)) (total (calculateStats ns))"
  then have "0 < total (calculateStats ns)"
    by (simp add: stats_fields(1))
  with a completed_bounds [of ns]
  show "completionRate (calculateStats ns)
      = (if js_mul (js_div (of_int (completed (calculateStats ns)))
              (of_int (total (calculateStats ns)))) 100
            < exactPercent (completed (calculateStats ns)) (total (calculateStats ns))
         then roundHalfUp (exactPercent (completed (calculateStats ns)) (total (calculateStats ns))) - 1
         else roundHalfUp (exactPercent (completed (calculateStats ns)) (total (calculateStats ns))))"
    using rate_tie_sign [of "completed (calculateStats ns)" "total (calculateStats ns)"]
    by (simp only: stats_fields(4) if_False)
next
  show "of_int (Math_round x) \<le> x + 1 / 2" "x + 1 / 2 < of_int (Math_round x) + 1"
    using Math_round_half_up [of x] by simp_all
qed (simp_all add: stats_fields)

lemma sample_counts:
  "total (calculateStats sampleNotes) = 3" "completed (calculateStats sampleNotes) = 1"
  "total (calculateStats (map toggleNote sampleNotes)) = 3"
  "completed (calculateStats (map toggleNote sampleNotes)) = 2"
  "total (calculateStats fortyNotes) = 40" "completed (calculateStats fortyNotes) = 23"
  "total (calculateStats eightNotes) = 8" "completed (calculateStats eightNotes) = 1"
  by code_simp+

lemma sample_percents:
  "\<not> tie 1 3" "\<not> tie 2 3" "tie 23 40" "tie 1 8"
  "roundHalfUp (exactPercent 1 3) = 33" "roundHalfUp (exactPercent 2 3) = 67"
  "roundHalfUp (exactPercent 23 40) = 58" "roundHalfUp (exactPercent 1 8) = 13"
  "js_mul (js_div 23 40) 100 < exactPercent 23 40"
  by code_simp+

theorem calculateStats_spec_witness:
  "completionRate (calculateStats []) = 0
   \<and> pending (calculateStats sampleNotes) = 2
   \<and> completionRate (calculateStats sampleNotes) = 33
   \<and> completionRate (calculateStats (map toggleNote sampleNotes)) = 67
   \<and> tie 1 8 \<and> completionRate (calculateStats eightNotes) = 13
   \<and> tie 23 40 \<and> completionRate (calculateStats fortyNotes) = 57"
proof -
  have sizes: "sampleNotes \<noteq> []" "length sampleNotes < 2 ^ 32"
    "map toggleNote sampleNotes \<noteq> []" "length (map toggleNote sampleNotes) < 2 ^ 32"
    "fortyNotes \<noteq> []" "length eightNotes < 2 ^ 32" "length eightNotes = 2 ^ 3"
    by (simp_all add: sampleNotes_def fortyNotes_def eightNotes_def)
  have exact: "completionRate (calculateStats ns)
      = roundHalfUp (exactPercent (completed (calculateStats ns)) (total (calculateStats ns)))"
    if "ns \<noteq> []" "length ns < 2 ^ 32"
      "\<not> tie (completed (calculateStats ns)) (total (calculateStats ns))" for ns
    using calculateStats_spec [of ns 0 0] that by blast
  have "completionRate (calculateStats []) = 0"
    using calculateStats_spec [of "[]" 0 0] by blast
  moreover have "pending (calculateStats sampleNotes) = 2"
    using calculateStats_spec [of sampleNotes 0 0] sample_counts by simp
  moreover have "completionRate (calculateStats sampleNotes) = 33"
    using exact [of sampleNotes] sizes sample_counts sample_percents by simp
  moreover have "completionRate (calculateStats (map toggleNote sampleNotes)) = 67"
    using exact [of "map toggleNote sampleNotes"] sizes sample_counts sample_percents by simp
  moreover have "completionRate (calculateStats eightNotes) = 13"
  proof -
    have "completionRate (calculateStats eightNotes)
        = roundHalfUp (exactPercent (completed (calculateStats eightNotes))
            (total (calculateStats eightNotes)))"
      using calculateStats_spec [of eightNotes 0 3] sizes by blast
    then show ?thesis
      using sample_counts sample_percents by simp
  qed
  moreover have "completionRate (calculateStats fortyNotes) = 57"
  proof -
    have "tie (completed (calculateStats fortyNotes)) (total (calculateStats fortyNotes))"
      by (simp add: sample_counts sample_percents)
    with sizes have "completionRate (calculateStats fortyNotes)
        = (if js_mul (js_div (of_int (completed (calculateStats fortyNotes)))
                (of_int (total (calculateStats fortyNotes)))) 100
              < exactPercent (completed (calculateStats fortyNotes)) (total (calculateStats fortyNotes))
           then roundHalfUp (exactPercent (completed (calculateStats fortyNotes))
                  (total (calculateStats fortyNotes))) - 1
           else roundHalfUp (exactPercent (completed (calculateStats fortyNotes))
                  (total (calculateStats fortyNotes))))"
      using calculateStats_spec [of fortyNotes 0 0] by blast
    then show ?thesis
      by (simp add: sample_counts sample_percents)
  qed
  ultimately show ?thesis
    using sample_percents by blast
qed

text \<open>
  Claim C2 as stated fails at a tie: for forty notes of which twenty-three are done the
  exact percentage is 57.5, which rounds half up to 58; the quotient 23/40 and its
  product with 100 are rounded to binary64 and give a value just below 57.5, and the
  rate is 57.
\<close>

theorem completionRate_below_half_up:
  "total (calculateStats fortyNotes) = 40
   \<and> completed (calculateStats fortyNotes) = 23
   \<and> roundHalfUp (exactPercent 23 40) = 58
   \<and> js_mul (js_div 23 40) 100 < 115 / 2
   \<and> completionRate (calculateStats fortyNotes) = 57"
  by code_simp

section \<open>Dependence on the environment\<close>






end
